theory Spec2Isabelle
  imports Complex_Main "HOL-Library.AList" "HOL-Library.Multiset"
begin

section \<open>Cards\<close>

text \<open>
  A card is the tuple \<open>(rank, suit)\<close> built by \<open>Deck._build\<close> from the constants
  \<open>RANKS\<close> and \<open>SUITS\<close> of \<open>app.py\<close>. Both are closed enumerations of strings; they
  are datatypes here, so that \<open>CARD_VALUES[rank]\<close> is a total lookup.
\<close>

datatype rank = Ace | R2 | R3 | R4 | R5 | R6 | R7 | R8 | R9 | R10 | Jack | Queen | King

datatype suit = Spades | Hearts | Diamonds | Clubs

type_synonym card = "rank \<times> suit"

definition SUITS :: "suit list" where
  "SUITS = [Spades, Hearts, Diamonds, Clubs]"

definition RANKS :: "rank list" where
  "RANKS = [Ace, R2, R3, R4, R5, R6, R7, R8, R9, R10, Jack, Queen, King]"

fun CARD_VALUES :: "rank \<Rightarrow> int" where
  "CARD_VALUES Ace = 11"
| "CARD_VALUES R2 = 2"
| "CARD_VALUES R3 = 3"
| "CARD_VALUES R4 = 4"
| "CARD_VALUES R5 = 5"
| "CARD_VALUES R6 = 6"
| "CARD_VALUES R7 = 7"
| "CARD_VALUES R8 = 8"
| "CARD_VALUES R9 = 9"
| "CARD_VALUES R10 = 10"
| "CARD_VALUES Jack = 10"
| "CARD_VALUES Queen = 10"
| "CARD_VALUES King = 10"

definition STARTING_CHIPS :: int where
  "STARTING_CHIPS = 1000"

definition MIN_BET :: int where
  "MIN_BET = 50"

section \<open>Class \<open>Hand\<close>\<close>

record hand =
  cards :: "card list"
  bet :: int
  is_standing :: bool
  is_bust :: bool
  is_blackjack :: bool
  doubled :: bool

text \<open>\<open>Hand.__init__\<close>.\<close>

definition Hand :: hand where
  "Hand = \<lparr>cards = [], bet = 0, is_standing = False, is_bust = False,
           is_blackjack = False, doubled = False\<rparr>"

text \<open>
  \<open>Hand.get_value\<close>. The \<open>for\<close> loop over the cards carries the pair
  \<open>(value, aces)\<close>; the \<open>while value > 21 and aces\<close> loop is recursion on \<open>aces\<close>.
\<close>

fun get_value_loop :: "card list \<Rightarrow> int \<Rightarrow> nat \<Rightarrow> int \<times> nat" where
  "get_value_loop [] v_acc aces = (v_acc, aces)"
| "get_value_loop ((r, s) # cs) v_acc aces =
     (if r = Ace then get_value_loop cs (v_acc + 11) (aces + 1)
      else get_value_loop cs (v_acc + CARD_VALUES r) aces)"

fun get_value_while :: "int \<Rightarrow> nat \<Rightarrow> int" where
  "get_value_while v_acc 0 = v_acc"
| "get_value_while v_acc (Suc aces) =
     (if v_acc > 21 then get_value_while (v_acc - 10) aces else v_acc)"

definition get_value :: "hand \<Rightarrow> int" where
  "get_value h = (case get_value_loop (cards h) 0 0 of (v_acc, aces) \<Rightarrow> get_value_while v_acc aces)"

text \<open>\<open>Hand._update_states\<close>.\<close>

definition update_states :: "hand \<Rightarrow> hand" where
  "update_states h =
     (let v = get_value h
      in h\<lparr>is_bust := v > 21, is_blackjack := (length (cards h) = 2 \<and> v = 21)\<rparr>)"

text \<open>\<open>Hand.add_card\<close>: append, recompute the flags, stand on 21.\<close>

definition add_card :: "hand \<Rightarrow> card \<Rightarrow> hand" where
  "add_card h c =
     (let h1 = update_states (h\<lparr>cards := cards h @ [c]\<rparr>)
      in if get_value h1 = 21 then h1\<lparr>is_standing := True\<rparr> else h1)"

text \<open>\<open>Hand.can_split\<close> and \<open>Hand.can_double\<close>.\<close>

definition can_split :: "hand \<Rightarrow> bool" where
  "can_split h =
     (if length (cards h) \<noteq> 2 then False
      else fst (cards h ! 0) = fst (cards h ! 1))"

definition can_double :: "hand \<Rightarrow> bool" where
  "can_double h = (length (cards h) = 2 \<and> \<not> doubled h)"

subsection \<open>The value as the specification words it\<close>

text \<open>
  The total with every Ace counted as 11, the number of Aces, and the total with every
  Ace counted as 1.
\<close>

definition soft_total :: "card list \<Rightarrow> int" where
  "soft_total cs = sum_list (map (\<lambda>c. CARD_VALUES (fst c)) cs)"

definition ace_count :: "card list \<Rightarrow> nat" where
  "ace_count cs = length (filter (\<lambda>c. fst c = Ace) cs)"

definition hard_total :: "card list \<Rightarrow> int" where
  "hard_total cs = sum_list (map (\<lambda>c. if fst c = Ace then 1 else CARD_VALUES (fst c)) cs)"

text \<open>
  The number of downgrades the specification describes: downgrade one Ace at a time
  while the total is above 21 and an Ace counted as 11 is left. \<open>k\<close> downgrades have
  been made so far.
\<close>

fun downgrades :: "int \<Rightarrow> nat \<Rightarrow> nat" where
  "downgrades tot 0 = 0"
| "downgrades tot (Suc left) =
     (if tot > 21 then Suc (downgrades (tot - 10) left) else 0)"

definition value_spec :: "card list \<Rightarrow> int" where
  "value_spec cs = soft_total cs - 10 * int (downgrades (soft_total cs) (ace_count cs))"

section \<open>Exceptions\<close>

text \<open>
  The exceptions the modelled code can raise. A handler returns \<open>Inl e\<close> when the
  script run stops with exception \<open>e\<close>; the session left behind by a stopped run is
  not modelled.
\<close>

datatype error = IndexError | KeyError | AttributeError | OverflowError

section \<open>Payout of one hand\<close>

text \<open>
  \<open>int(bet * 2.5)\<close> is float arithmetic. The int \<open>bet\<close> is converted to a double,
  the nearest one with ties going to the even significand, and the conversion raises
  \<open>OverflowError\<close> when that is not finite. The product of the two doubles is rounded
  the same way and is infinite when out of range; \<open>int\<close> raises \<open>OverflowError\<close> on
  an infinity and truncates towards zero otherwise. A double has 53 significant bits
  and is below \<open>2^1024\<close> in absolute value.

  The model stays in the integers. \<open>bit_length\<close> is \<open>int.bit_length\<close>;
  \<open>round_half_even n k\<close> is \<open>n / 2^k\<close> rounded to the nearest integer, ties to
  even; \<open>to_double n\<close> is the nearest double to the integer \<open>n \<ge> 0\<close>, itself an
  integer. With \<open>x\<close> the double of the bet, the rounded product \<open>x * 2.5\<close> is half
  the nearest double to \<open>5 * x\<close>, since halving a double is exact. Rounding and
  truncation are symmetric about zero.
\<close>

fun bit_length :: "nat \<Rightarrow> nat" where
  "bit_length n = (if n = 0 then 0 else Suc (bit_length (n div 2)))"

declare bit_length.simps [simp del]

definition round_half_even :: "int \<Rightarrow> nat \<Rightarrow> int" where
  "round_half_even n k =
     (let q = n div 2 ^ k; r = n mod 2 ^ k
      in if 2 * r < 2 ^ k then q
         else if 2 * r > 2 ^ k then q + 1
         else if even q then q else q + 1)"

definition to_double :: "int \<Rightarrow> int" where
  "to_double n =
     (let len = bit_length (nat n)
      in if len \<le> 53 then n
         else round_half_even n (len - 53) * 2 ^ (len - 53))"

definition float_mul_2_5_int :: "int \<Rightarrow> error + int" where
  "float_mul_2_5_int b =
     (let x = to_double b
      in if x \<ge> 2 ^ 1024 then Inl OverflowError
         else (let y2 = to_double (5 * x)
               in if y2 \<ge> 2 * 2 ^ 1024 then Inl OverflowError
                  else Inr (y2 div 2)))"

definition int_bet_times_2_5 :: "int \<Rightarrow> error + int" where
  "int_bet_times_2_5 b =
     (if 0 \<le> b then float_mul_2_5_int b
      else (case float_mul_2_5_int (- b) of Inl e \<Rightarrow> Inl e | Inr v \<Rightarrow> Inr (- v)))"

text \<open>
  The \<open>if\<close>/\<open>elif\<close> chain of \<open>apply_payouts\<close> for one hand, given the three values
  read from the dealer's hand before the loop.
\<close>

definition payout :: "hand \<Rightarrow> int \<Rightarrow> bool \<Rightarrow> bool \<Rightarrow> error + int" where
  "payout h dealer_value dealer_bust dealer_blackjack =
     (let b = bet h; player_value = get_value h
      in if is_bust h then Inr 0
         else if is_blackjack h \<and> \<not> dealer_blackjack then int_bet_times_2_5 b
         else if dealer_bust then Inr (b * 2)
         else if player_value > dealer_value then Inr (b * 2)
         else if player_value = dealer_value then Inr b
         else Inr 0)"

text \<open>The classification as the specification lists it, over flags, values and bet.\<close>

definition payout_spec :: "bool \<Rightarrow> bool \<Rightarrow> bool \<Rightarrow> bool \<Rightarrow> int \<Rightarrow> int \<Rightarrow> int \<Rightarrow> int" where
  "payout_spec hand_bust hand_blackjack dealer_bust dealer_blackjack hand_value dealer_value b =
     (if hand_bust then 0
      else if hand_blackjack \<and> \<not> dealer_blackjack then \<lfloor>real_of_int b * 2.5\<rfloor>
      else if dealer_bust then b * 2
      else if hand_value > dealer_value then b * 2
      else if hand_value = dealer_value then b
      else 0)"

section \<open>Operations on one hand\<close>

text \<open>
  What the action handlers do to the hand they act on: Hit adds a card; Stand sets the
  flag; Double doubles the bet, marks the hand, adds one card and stands; Split pops the
  last card and adds a fresh one. The handlers guard Split with \<open>can_split\<close>.
\<close>

definition hand_stand :: "hand \<Rightarrow> hand" where
  "hand_stand h = h\<lparr>is_standing := True\<rparr>"

definition hand_double :: "hand \<Rightarrow> card \<Rightarrow> hand" where
  "hand_double h c = (add_card (h\<lparr>bet := bet h * 2, doubled := True\<rparr>) c)\<lparr>is_standing := True\<rparr>"

definition hand_split_keep :: "hand \<Rightarrow> card \<Rightarrow> hand" where
  "hand_split_keep h c = add_card (h\<lparr>cards := butlast (cards h)\<rparr>) c"

definition hand_split_new :: "hand \<Rightarrow> card \<Rightarrow> hand" where
  "hand_split_new h c = add_card (Hand\<lparr>bet := bet h, cards := cards Hand @ [last (cards h)]\<rparr>) c"

datatype hand_op = OpHit card | OpStand | OpDouble card | OpSplit card

fun apply_hand_op :: "hand \<Rightarrow> hand_op \<Rightarrow> hand" where
  "apply_hand_op h (OpHit c) = add_card h c"
| "apply_hand_op h OpStand = hand_stand h"
| "apply_hand_op h (OpDouble c) = hand_double h c"
| "apply_hand_op h (OpSplit c) = (if can_split h then hand_split_keep h c else h)"

text \<open>
  The flags of a hand agree with its cards: what \<open>_update_states\<close> leaves behind.
\<close>

definition flags_in_sync :: "hand \<Rightarrow> bool" where
  "flags_in_sync h =
     (is_bust h = (get_value h > 21)
      \<and> is_blackjack h = (length (cards h) = 2 \<and> get_value h = 21))"

text \<open>
  Example hands: Ace and King on a bet of 100; a pair of eights; Ace and King on a bet
  of 1801439850948199, the least bet whose product with 2.5 is not a double.
\<close>

definition ex_blackjack_large :: hand where
  "ex_blackjack_large =
     add_card (add_card (Hand\<lparr>bet := 1801439850948199\<rparr>) (Ace, Spades)) (King, Hearts)"

definition ex_blackjack :: hand where
  "ex_blackjack = add_card (add_card (Hand\<lparr>bet := 100\<rparr>) (Ace, Spades)) (King, Hearts)"

definition ex_pair :: hand where
  "ex_pair = add_card (add_card (Hand\<lparr>bet := 100\<rparr>) (R8, Spades)) (R8, Hearts)"

section \<open>Class \<open>Deck\<close>\<close>

text \<open>
  \<open>random.shuffle\<close> is the one external of the deck. It is a parameter of the model: a
  function from the generator's state and a list to the shuffled list and the next
  state. \<open>is_shuffle\<close> is its contract: the result is a permutation of the argument.
\<close>

type_synonym rng = nat

type_synonym shuffle = "rng \<Rightarrow> card list \<Rightarrow> card list \<times> rng"

definition is_shuffle :: "shuffle \<Rightarrow> bool" where
  "is_shuffle sh = (\<forall>g cs. mset (fst (sh g cs)) = mset cs)"

record deck =
  num_decks :: nat
  deck_cards :: "card list"

text \<open>The list \<open>Deck._build\<close> fills before it shuffles: decks, then suits, then ranks.\<close>

definition fresh_cards :: "nat \<Rightarrow> card list" where
  "fresh_cards n = concat (replicate n (concat (map (\<lambda>s. map (\<lambda>r. (r, s)) RANKS) SUITS)))"

definition deck_build :: "shuffle \<Rightarrow> rng \<Rightarrow> deck \<Rightarrow> deck \<times> rng" where
  "deck_build sh g d =
     (case sh g (fresh_cards (num_decks d)) of (cs, g') \<Rightarrow> (d\<lparr>deck_cards := cs\<rparr>, g'))"

text \<open>\<open>Deck.__init__\<close>.\<close>

definition Deck :: "shuffle \<Rightarrow> rng \<Rightarrow> nat \<Rightarrow> deck \<times> rng" where
  "Deck sh g n = deck_build sh g \<lparr>num_decks = n, deck_cards = []\<rparr>"

text \<open>
  \<open>Deck.deal\<close>: rebuild below 15 cards, then \<open>pop()\<close> the last card of the list; the
  pop of an empty list raises.
\<close>

definition deal :: "shuffle \<Rightarrow> rng \<Rightarrow> deck \<Rightarrow> error + (card \<times> deck \<times> rng)" where
  "deal sh g d =
     (case (if length (deck_cards d) = 0 \<or> length (deck_cards d) < 15
            then deck_build sh g d else (d, g)) of
        (d1, g1) \<Rightarrow>
          if deck_cards d1 = [] then Inl IndexError
          else Inr (last (deck_cards d1), d1\<lparr>deck_cards := butlast (deck_cards d1)\<rparr>, g1))"

section \<open>Session state\<close>

text \<open>
  The fields of \<open>st.session_state\<close> that the table logic reads and writes, and the state
  of the random generator. \<open>bankrolls\<close> is a dict read and written by key only;
  \<open>player_hands\<close> is a dict whose insertion order is the seating order, an association
  list with \<open>AList.update\<close> for \<open>d[k] = v\<close>.
\<close>

record session =
  betting_phase :: bool
  round_active :: bool
  dealer_turn :: bool
  round_over :: bool
  payouts_applied :: bool
  bankrolls :: "string \<rightharpoonup> int"
  deck :: "deck option"
  dealer_hand :: "hand option"
  player_hands :: "(string \<times> hand list) list"
  current_player_idx :: int
  current_hand_idx :: int
  rng :: rng

text \<open>\<open>st.session_state.deck.deal()\<close>.\<close>

definition draw :: "shuffle \<Rightarrow> session \<Rightarrow> error + (card \<times> session)" where
  "draw sh s =
     (case deck s of
        None \<Rightarrow> Inl AttributeError
      | Some d \<Rightarrow>
          (case deal sh (rng s) d of
             Inl e \<Rightarrow> Inl e
           | Inr (c, d', g') \<Rightarrow> Inr (c, s\<lparr>deck := Some d', rng := g'\<rparr>)))"

section \<open>Dealer auto-play and settlement\<close>

text \<open>
  The loop of the Reveal Dealer handler:
  \<open>while dealer_hand.get_value() < 17: dealer_hand.add_card(deck.deal())\<close>.
  Every card adds at least 1 to the total that counts each Ace as 1, and that total is
  at most the value, so 17 less that total decreases.
\<close>

function dealer_loop :: "shuffle \<Rightarrow> session \<Rightarrow> error + session" where
  "dealer_loop sh s =
     (case dealer_hand s of
        None \<Rightarrow> Inl AttributeError
      | Some dh \<Rightarrow>
          if get_value dh < 17 then
            (case draw sh s of
               Inl e \<Rightarrow> Inl e
             | Inr (c, s1) \<Rightarrow> dealer_loop sh (s1\<lparr>dealer_hand := Some (add_card dh c)\<rparr>))
          else Inr s)"
  by pat_completeness auto
termination
proof (relation "measure (\<lambda>(sh, s). case dealer_hand s of None \<Rightarrow> 0
                                     | Some dh \<Rightarrow> nat (17 - hard_total (cards dh)))")
  show "wf (measure (\<lambda>(sh, s). case dealer_hand s of None \<Rightarrow> 0
                                     | Some dh \<Rightarrow> nat (17 - hard_total (cards dh))))"
    by simp
next
  fix sh :: shuffle and s s1 :: session and dh :: hand and c :: card and x
  assume dh: "dealer_hand s = Some dh" and low: "get_value dh < 17"
  have loop: "get_value_loop cs v a = (v + soft_total cs, a + ace_count cs)" for cs v a
    by (induction cs v a rule: get_value_loop.induct)
       (simp_all add: soft_total_def ace_count_def)
  have soft: "soft_total cs = hard_total cs + 10 * int (ace_count cs)" for cs
    by (induction cs) (simp_all add: soft_total_def hard_total_def ace_count_def)
  have while_ge: "y \<le> get_value_while (y + 10 * int a) a" for y a
  proof (induction a)
    case 0
    show ?case by simp
  next
    case (Suc a)
    have eq: "y + 10 * int (Suc a) - 10 = y + 10 * int a" by simp
    have step: "get_value_while (y + 10 * int (Suc a)) (Suc a) =
        (if y + 10 * int (Suc a) > 21 then get_value_while (y + 10 * int a) a
         else y + 10 * int (Suc a))"
      by (subst get_value_while.simps) (simp only: eq)
    from Suc.IH show ?case unfolding step by simp
  qed
  have le: "hard_total (cards dh) \<le> get_value dh"
    by (simp add: get_value_def loop soft while_ge)
  have snoc: "hard_total (cards dh) + 1 \<le> hard_total (cards dh @ [c])"
    by (cases "fst c") (simp_all add: hard_total_def)
  from dh low le snoc
  show "((sh, s1\<lparr>dealer_hand := Some (add_card dh c)\<rparr>), sh, s)
       \<in> measure (\<lambda>(sh, s). case dealer_hand s of None \<Rightarrow> 0
                                     | Some dh \<Rightarrow> nat (17 - hard_total (cards dh)))"
    by (simp add: add_card_def update_states_def Let_def)
qed

text \<open>
  \<open>apply_payouts\<close>: for each player in seating order and each of the player's hands,
  \<open>bankrolls[name] += payout\<close>; then the flag.
\<close>

fun pay_hands ::
  "int \<Rightarrow> bool \<Rightarrow> bool \<Rightarrow> string \<Rightarrow> hand list \<Rightarrow> (string \<rightharpoonup> int) \<Rightarrow> error + (string \<rightharpoonup> int)" where
  "pay_hands dv db dbj name [] bks = Inr bks"
| "pay_hands dv db dbj name (h # hs) bks =
     (case payout h dv db dbj of
        Inl e \<Rightarrow> Inl e
      | Inr p \<Rightarrow>
          (case bks name of
             None \<Rightarrow> Inl KeyError
           | Some bk \<Rightarrow> pay_hands dv db dbj name hs (bks(name \<mapsto> bk + p))))"

fun pay_players ::
  "int \<Rightarrow> bool \<Rightarrow> bool \<Rightarrow> (string \<times> hand list) list \<Rightarrow> (string \<rightharpoonup> int) \<Rightarrow> error + (string \<rightharpoonup> int)" where
  "pay_players dv db dbj [] bks = Inr bks"
| "pay_players dv db dbj ((name, hands) # rest) bks =
     (case pay_hands dv db dbj name hands bks of
        Inl e \<Rightarrow> Inl e
      | Inr bks' \<Rightarrow> pay_players dv db dbj rest bks')"

definition apply_payouts :: "session \<Rightarrow> error + session" where
  "apply_payouts s =
     (case dealer_hand s of
        None \<Rightarrow> Inl AttributeError
      | Some dh \<Rightarrow>
          (case pay_players (get_value dh) (is_bust dh) (is_blackjack dh)
                  (player_hands s) (bankrolls s) of
             Inl e \<Rightarrow> Inl e
           | Inr bks \<Rightarrow> Inr (s\<lparr>bankrolls := bks, payouts_applied := True\<rparr>)))"

text \<open>The body of the Reveal Dealer handler.\<close>

definition reveal_dealer :: "shuffle \<Rightarrow> session \<Rightarrow> error + session" where
  "reveal_dealer sh s =
     (case dealer_loop sh (s\<lparr>dealer_turn := True\<rparr>) of
        Inl e \<Rightarrow> Inl e
      | Inr s1 \<Rightarrow>
          (case (if \<not> payouts_applied s1 then apply_payouts s1 else Inr s1) of
             Inl e \<Rightarrow> Inl e
           | Inr s2 \<Rightarrow> Inr (s2\<lparr>round_over := True\<rparr>)))"

section \<open>Betting phase: the Deal Cards handler\<close>

text \<open>
  \<open>bets\<close> is the dict the page builds from the number inputs, in seating order. The
  first loop creates a hand for every positive bet and takes the bet from the bankroll.
\<close>

fun place_bets :: "(string \<times> int) list \<Rightarrow> session \<Rightarrow> error + session" where
  "place_bets [] s = Inr s"
| "place_bets ((name, b) # rest) s =
     (if b > 0 then
        (case bankrolls s name of
           None \<Rightarrow> Inl KeyError
         | Some bk \<Rightarrow>
             place_bets rest
               (s\<lparr>player_hands := AList.update name [Hand\<lparr>bet := b\<rparr>] (player_hands s),
                  bankrolls := (bankrolls s)(name \<mapsto> bk - b)\<rparr>))
      else place_bets rest s)"

text \<open>
  One pass of \<open>for _ in range(2)\<close>: a card to the first hand of every player in
  \<open>list(player_hands.keys())\<close>, then a card to the dealer.
\<close>

fun deal_players :: "shuffle \<Rightarrow> string list \<Rightarrow> session \<Rightarrow> error + session" where
  "deal_players sh [] s = Inr s"
| "deal_players sh (name # names) s =
     (case map_of (player_hands s) name of
        None \<Rightarrow> Inl KeyError
      | Some hl \<Rightarrow>
          (case hl of
             [] \<Rightarrow> Inl IndexError
           | h # hs \<Rightarrow>
               (case draw sh s of
                  Inl e \<Rightarrow> Inl e
                | Inr (c, s1) \<Rightarrow>
                    deal_players sh names
                      (s1\<lparr>player_hands :=
                            AList.update name (add_card h c # hs) (player_hands s1)\<rparr>))))"

definition deal_round :: "shuffle \<Rightarrow> session \<Rightarrow> error + session" where
  "deal_round sh s =
     (case deal_players sh (map fst (player_hands s)) s of
        Inl e \<Rightarrow> Inl e
      | Inr s1 \<Rightarrow>
          (case dealer_hand s1 of
             None \<Rightarrow> Inl AttributeError
           | Some dh \<Rightarrow>
               (case draw sh s1 of
                  Inl e \<Rightarrow> Inl e
                | Inr (c, s2) \<Rightarrow> Inr (s2\<lparr>dealer_hand := Some (add_card dh c)\<rparr>))))"

definition deal_cards :: "shuffle \<Rightarrow> (string \<times> int) list \<Rightarrow> session \<Rightarrow> error + session" where
  "deal_cards sh bets s =
     (if \<not> (\<exists>b \<in> set (map snd bets). b \<ge> MIN_BET) then Inr s
      else
        (case (case deck s of None \<Rightarrow> Deck sh (rng s) 6 | Some d \<Rightarrow> (d, rng s)) of
           (d0, g0) \<Rightarrow>
             (case place_bets bets
                     (s\<lparr>dealer_hand := Some Hand, player_hands := [],
                        deck := Some d0, rng := g0\<rparr>) of
                Inl e \<Rightarrow> Inl e
              | Inr s1 \<Rightarrow>
                  (case deal_round sh s1 of
                     Inl e \<Rightarrow> Inl e
                   | Inr s2 \<Rightarrow>
                       (case deal_round sh s2 of
                          Inl e \<Rightarrow> Inl e
                        | Inr s3 \<Rightarrow>
                            Inr (s3\<lparr>betting_phase := False, round_active := True,
                                     dealer_turn := False, round_over := False,
                                     payouts_applied := False,
                                     current_player_idx := 0,
                                     current_hand_idx := 0\<rparr>))))))"

section \<open>Playing phase: the control panel\<close>

text \<open>
  The hand the turn pointer selects, with its player and the player's list of hands.
  The panel is shown only for a name and a hand that are truthy: the name is not the
  empty string.
\<close>

definition current :: "session \<Rightarrow> (string \<times> hand list \<times> hand) option" where
  "current s =
     (let names = map fst (player_hands s)
      in if names \<noteq> [] \<and> \<not> dealer_turn s
            \<and> 0 \<le> current_player_idx s \<and> current_player_idx s < int (length names)
         then
           (let name = names ! nat (current_player_idx s)
            in case map_of (player_hands s) name of
                 None \<Rightarrow> None
               | Some hl \<Rightarrow>
                   if 0 \<le> current_hand_idx s \<and> current_hand_idx s < int (length hl)
                      \<and> name \<noteq> []
                   then Some (name, hl, hl ! nat (current_hand_idx s))
                   else None)
         else None)"

text \<open>
  The panel reads \<open>bankrolls[current_player_name]\<close> before any button is looked at.
\<close>

definition controls :: "session \<Rightarrow> error + (string \<times> hand list \<times> hand \<times> int) option" where
  "controls s =
     (case current s of
        None \<Rightarrow> Inr None
      | Some (name, hl, h) \<Rightarrow>
          (case bankrolls s name of
             None \<Rightarrow> Inl KeyError
           | Some bk \<Rightarrow> Inr (Some (name, hl, h, bk))))"

definition playable :: "hand \<Rightarrow> bool" where
  "playable h = (\<not> is_bust h \<and> \<not> is_standing h)"

text \<open>Writing the player's list of hands back under the player's name.\<close>

definition set_hands :: "string \<Rightarrow> hand list \<Rightarrow> session \<Rightarrow> session" where
  "set_hands name hl s = s\<lparr>player_hands := AList.update name hl (player_hands s)\<rparr>"

text \<open>\<open>list.insert(i, x)\<close> for an index that is not negative.\<close>

definition list_insert :: "nat \<Rightarrow> 'a \<Rightarrow> 'a list \<Rightarrow> 'a list" where
  "list_insert i x xs = take i xs @ [x] @ drop i xs"

definition action_hit :: "shuffle \<Rightarrow> session \<Rightarrow> error + session" where
  "action_hit sh s =
     (case controls s of
        Inl e \<Rightarrow> Inl e
      | Inr None \<Rightarrow> Inr s
      | Inr (Some (name, hl, h, bk)) \<Rightarrow>
          if playable h then
            (case draw sh s of
               Inl e \<Rightarrow> Inl e
             | Inr (c, s1) \<Rightarrow>
                 Inr (set_hands name (hl[nat (current_hand_idx s) := add_card h c]) s1))
          else Inr s)"

definition action_stand :: "session \<Rightarrow> error + session" where
  "action_stand s =
     (case controls s of
        Inl e \<Rightarrow> Inl e
      | Inr None \<Rightarrow> Inr s
      | Inr (Some (name, hl, h, bk)) \<Rightarrow>
          if playable h
          then Inr (set_hands name (hl[nat (current_hand_idx s) := hand_stand h]) s)
          else Inr s)"

definition action_double :: "shuffle \<Rightarrow> session \<Rightarrow> error + session" where
  "action_double sh s =
     (case controls s of
        Inl e \<Rightarrow> Inl e
      | Inr None \<Rightarrow> Inr s
      | Inr (Some (name, hl, h, bk)) \<Rightarrow>
          if playable h \<and> can_double h \<and> bk \<ge> bet h then
            (case draw sh s of
               Inl e \<Rightarrow> Inl e
             | Inr (c, s1) \<Rightarrow>
                 Inr (set_hands name (hl[nat (current_hand_idx s) := hand_double h c])
                        (s1\<lparr>bankrolls := (bankrolls s)(name \<mapsto> bk - bet h)\<rparr>)))
          else Inr s)"

definition action_split :: "shuffle \<Rightarrow> session \<Rightarrow> error + session" where
  "action_split sh s =
     (case controls s of
        Inl e \<Rightarrow> Inl e
      | Inr None \<Rightarrow> Inr s
      | Inr (Some (name, hl, h, bk)) \<Rightarrow>
          if playable h \<and> can_split h \<and> bk \<ge> bet h \<and> length hl < 4 then
            (case draw sh s of
               Inl e \<Rightarrow> Inl e
             | Inr (c1, s1) \<Rightarrow>
                 (case draw sh s1 of
                    Inl e \<Rightarrow> Inl e
                  | Inr (c2, s2) \<Rightarrow>
                      (let i = nat (current_hand_idx s);
                           new_hand = hand_split_new h c2
                       in Inr (set_hands name
                                 (list_insert (i + 1) new_hand (hl[i := hand_split_keep h c1]))
                                 (s2\<lparr>bankrolls := (bankrolls s)(name \<mapsto> bk - bet new_hand)\<rparr>)))))
          else Inr s)"

text \<open>
  Turn flow. \<open>all_done\<close>: last player, last hand, and the hand is finished. The Next
  Hand button is there while \<open>all_done\<close> is false, the Reveal Dealer button once it is
  true.
\<close>

definition all_done :: "session \<Rightarrow> hand list \<Rightarrow> hand \<Rightarrow> bool" where
  "all_done s hl h =
     (current_player_idx s = int (length (player_hands s)) - 1
      \<and> current_hand_idx s = int (length hl) - 1
      \<and> (is_bust h \<or> is_standing h))"

definition next_hand :: "session \<Rightarrow> error + session" where
  "next_hand s =
     (case controls s of
        Inl e \<Rightarrow> Inl e
      | Inr None \<Rightarrow> Inr s
      | Inr (Some (name, hl, h, bk)) \<Rightarrow>
          if all_done s hl h then Inr s
          else if \<not> is_standing h \<and> \<not> is_bust h then Inr s
          else if current_hand_idx s < int (length hl) - 1
            then Inr (s\<lparr>current_hand_idx := current_hand_idx s + 1\<rparr>)
          else if current_player_idx s < int (length (player_hands s)) - 1
            then Inr (s\<lparr>current_player_idx := current_player_idx s + 1,
                        current_hand_idx := 0\<rparr>)
          else Inr (s\<lparr>dealer_turn := True\<rparr>))"

definition reveal_button :: "shuffle \<Rightarrow> session \<Rightarrow> error + session" where
  "reveal_button sh s =
     (case controls s of
        Inl e \<Rightarrow> Inl e
      | Inr None \<Rightarrow> Inr s
      | Inr (Some (name, hl, h, bk)) \<Rightarrow>
          if all_done s hl h then reveal_dealer sh s else Inr s)"

section \<open>Results phase: the next round\<close>

text \<open>
  \<open>save_round_to_supabase\<close> reads the session and writes none of it. Its client is
  \<open>None\<close> or answers the insert with success or failure; with a client the rows are
  built from \<open>dealer_hand.cards\<close> first.
\<close>

definition save_round_to_supabase :: "bool option \<Rightarrow> session \<Rightarrow> error + bool" where
  "save_round_to_supabase client s =
     (case client of
        None \<Rightarrow> Inr False
      | Some insert_ok \<Rightarrow>
          (case dealer_hand s of
             None \<Rightarrow> Inl AttributeError
           | Some dh \<Rightarrow> Inr insert_ok))"

definition next_round_no_save :: "session \<Rightarrow> session" where
  "next_round_no_save s =
     s\<lparr>betting_phase := True, round_active := False, round_over := False,
       dealer_turn := False, payouts_applied := False,
       dealer_hand := None, player_hands := []\<rparr>"

definition save_and_next_round :: "bool option \<Rightarrow> session \<Rightarrow> error + session" where
  "save_and_next_round client s =
     (case save_round_to_supabase client s of
        Inl e \<Rightarrow> Inl e
      | Inr ok \<Rightarrow>
          Inr (s\<lparr>betting_phase := True, round_active := False, round_over := False,
                 dealer_turn := False, payouts_applied := False,
                 dealer_hand := None, player_hands := []\<rparr>))"

section \<open>Example sessions\<close>

text \<open>
  A shuffle that leaves the list as it is, fifteen cards that stay at the bottom of the
  example shoes, and a table of one player after Open Table. The deck pops from the end
  of its list.
\<close>

definition ex_shuffle :: shuffle where
  "ex_shuffle g cs = (cs, g)"

definition ex_filler :: "card list" where
  "ex_filler = [(R2, Clubs), (R3, Clubs), (R4, Clubs), (R5, Clubs), (R6, Clubs),
                (R7, Clubs), (R8, Clubs), (R2, Hearts), (R3, Hearts), (R4, Hearts),
                (R5, Hearts), (R7, Hearts), (R8, Hearts), (Queen, Hearts), (Jack, Hearts)]"

definition ex_table :: session where
  "ex_table = \<lparr>betting_phase = True, round_active = False, dealer_turn = False,
     round_over = False, payouts_applied = False,
     bankrolls = [''Player 1'' \<mapsto> STARTING_CHIPS],
     deck = Some \<lparr>num_decks = 6,
                  deck_cards = ex_filler @ [(R9, Clubs), (R9, Diamonds), (R6, Hearts),
                                            (King, Spades), (R5, Spades)]\<rparr>,
     dealer_hand = None, player_hands = [],
     current_player_idx = 0, current_hand_idx = 0, rng = 0\<rparr>"

text \<open>A dealer on ten and six, with a King on top of the shoe.\<close>

definition ex_sixteen :: hand where
  "ex_sixteen = add_card (add_card Hand (R10, Hearts)) (R6, Clubs)"

definition ex_dealer_turn :: session where
  "ex_dealer_turn =
     ex_table\<lparr>dealer_hand := Some ex_sixteen, dealer_turn := True,
              deck := Some \<lparr>num_decks = 6, deck_cards = ex_filler @ [(King, Diamonds)]\<rparr>\<rparr>"

text \<open>The session has a deck, and the deck was built from at least one pack.\<close>


definition deck_ok :: "session \<Rightarrow> bool" where
  "deck_ok s = (case deck s of None \<Rightarrow> False | Some d \<Rightarrow> 0 < num_decks d)"

text \<open>
  One player bets 100 of 1000, is dealt five and six against the dealer's King and nine,
  doubles and draws a nine; the dealer stands on 19.
\<close>

definition ex_bets :: "(string \<times> int) list" where
  "ex_bets = [(''Player 1'', 100)]"

definition ex_hand_11 :: hand where
  "ex_hand_11 = \<lparr>cards = [(R5, Spades), (R6, Hearts)], bet = 100, is_standing = False,
                  is_bust = False, is_blackjack = False, doubled = False\<rparr>"

definition ex_dealer_19 :: hand where
  "ex_dealer_19 = \<lparr>cards = [(King, Spades), (R9, Diamonds)], bet = 0, is_standing = False,
                    is_bust = False, is_blackjack = False, doubled = False\<rparr>"

definition ex_dealt :: session where
  "ex_dealt = ex_table\<lparr>betting_phase := False, round_active := True,
     bankrolls := [''Player 1'' \<mapsto> 900],
     deck := Some \<lparr>num_decks = 6, deck_cards = ex_filler @ [(R9, Clubs)]\<rparr>,
     dealer_hand := Some ex_dealer_19,
     player_hands := [(''Player 1'', [ex_hand_11])]\<rparr>"

definition ex_hand_20 :: hand where
  "ex_hand_20 = \<lparr>cards = [(R5, Spades), (R6, Hearts), (R9, Clubs)], bet = 200,
                  is_standing = True, is_bust = False, is_blackjack = False,
                  doubled = True\<rparr>"

definition ex_doubled :: session where
  "ex_doubled = ex_dealt\<lparr>bankrolls := [''Player 1'' \<mapsto> 800],
     deck := Some \<lparr>num_decks = 6, deck_cards = ex_filler\<rparr>,
     player_hands := [(''Player 1'', [ex_hand_20])]\<rparr>"

definition ex_settled :: session where
  "ex_settled = ex_doubled\<lparr>dealer_turn := True, bankrolls := [''Player 1'' \<mapsto> 1200],
     payouts_applied := True, round_over := True\<rparr>"

text \<open>
  A second round: the player is dealt two Aces against the dealer's King and nine,
  splits, draws a King on the first hand and a five on the second, moves to the second
  hand and stands. Four more cards stay in the shoe for the round after.
\<close>

definition ex_hand_aces :: hand where
  "ex_hand_aces = \<lparr>cards = [(Ace, Spades), (Ace, Hearts)], bet = 100, is_standing = False,
                    is_bust = False, is_blackjack = False, doubled = False\<rparr>"

definition ex_hand_ace_king :: hand where
  "ex_hand_ace_king = \<lparr>cards = [(Ace, Spades), (King, Diamonds)], bet = 100,
                        is_standing = True, is_bust = False, is_blackjack = True,
                        doubled = False\<rparr>"

definition ex_hand_ace_five :: hand where
  "ex_hand_ace_five = \<lparr>cards = [(Ace, Hearts), (R5, Diamonds)], bet = 100,
                        is_standing = False, is_bust = False, is_blackjack = False,
                        doubled = False\<rparr>"

definition ex_extra :: "card list" where
  "ex_extra = [(R10, Clubs), (R7, Diamonds), (R10, Spades), (R8, Diamonds)]"

definition ex_table_aces :: session where
  "ex_table_aces = ex_table\<lparr>deck := Some \<lparr>num_decks = 6,
     deck_cards = ex_filler @ ex_extra @
                  [(R5, Diamonds), (King, Diamonds), (R9, Diamonds),
                   (Ace, Hearts), (King, Spades), (Ace, Spades)]\<rparr>\<rparr>"

definition ex_aces_dealt :: session where
  "ex_aces_dealt = ex_table\<lparr>betting_phase := False, round_active := True,
     bankrolls := [''Player 1'' \<mapsto> 900],
     deck := Some \<lparr>num_decks = 6,
                   deck_cards = ex_filler @ ex_extra @ [(R5, Diamonds), (King, Diamonds)]\<rparr>,
     dealer_hand := Some ex_dealer_19,
     player_hands := [(''Player 1'', [ex_hand_aces])]\<rparr>"

definition ex_aces_split :: session where
  "ex_aces_split = ex_aces_dealt\<lparr>bankrolls := [''Player 1'' \<mapsto> 800],
     deck := Some \<lparr>num_decks = 6, deck_cards = ex_filler @ ex_extra\<rparr>,
     player_hands := [(''Player 1'', [ex_hand_ace_king, ex_hand_ace_five])]\<rparr>"

definition ex_aces_second :: session where
  "ex_aces_second = ex_aces_split\<lparr>current_hand_idx := 1\<rparr>"

definition ex_aces_stood :: session where
  "ex_aces_stood = ex_aces_second\<lparr>player_hands :=
     [(''Player 1'', [ex_hand_ace_king, ex_hand_ace_five\<lparr>is_standing := True\<rparr>])]\<rparr>"

definition ex_aces_settled :: session where
  "ex_aces_settled = ex_aces_stood\<lparr>dealer_turn := True,
     bankrolls := [''Player 1'' \<mapsto> 1050], payouts_applied := True, round_over := True\<rparr>"

definition ex_aces_next :: session where
  "ex_aces_next = ex_table\<lparr>betting_phase := False, round_active := True,
     bankrolls := [''Player 1'' \<mapsto> 950],
     deck := Some \<lparr>num_decks = 6, deck_cards = ex_filler\<rparr>,
     dealer_hand := Some \<lparr>cards = [(R10, Spades), (R10, Clubs)], bet = 0,
                           is_standing = False, is_bust = False, is_blackjack = False,
                           doubled = False\<rparr>,
     player_hands := [(''Player 1'',
                       [\<lparr>cards = [(R8, Diamonds), (R7, Diamonds)], bet = 100,
                         is_standing = False, is_bust = False, is_blackjack = False,
                         doubled = False\<rparr>])]\<rparr>"

text \<open>
  The round with the split once more, on a bet of 1801439850948199 out of a bankroll of
  twice that.
\<close>

definition ex_hand_aces_large :: hand where
  "ex_hand_aces_large = ex_hand_aces\<lparr>bet := 1801439850948199\<rparr>"

definition ex_hand_ace_king_large :: hand where
  "ex_hand_ace_king_large = ex_hand_ace_king\<lparr>bet := 1801439850948199\<rparr>"

definition ex_hand_ace_five_large :: hand where
  "ex_hand_ace_five_large = ex_hand_ace_five\<lparr>bet := 1801439850948199\<rparr>"

definition ex_aces_dealt_large :: session where
  "ex_aces_dealt_large = ex_aces_dealt\<lparr>bankrolls := [''Player 1'' \<mapsto> 1801439850948199],
     player_hands := [(''Player 1'', [ex_hand_aces_large])]\<rparr>"

definition ex_aces_split_large :: session where
  "ex_aces_split_large = ex_aces_split\<lparr>bankrolls := [''Player 1'' \<mapsto> 0],
     player_hands := [(''Player 1'', [ex_hand_ace_king_large, ex_hand_ace_five_large])]\<rparr>"

section \<open>Describing the initial deal\<close>

text \<open>
  The bets that get a hand are those above 0, in the order of the dict. After the first
  loop of the Deal Cards handler every such player holds one hand; \<open>single_hands\<close>
  wraps a list of (name, hand) as \<open>player_hands\<close> has it, \<open>new_hands\<close> are the fresh
  hands with their bets, and \<open>give_cards\<close> adds one card to each hand, card by card in
  the order of the list.
\<close>

definition single_hands :: "(string \<times> hand) list \<Rightarrow> (string \<times> hand list) list" where
  "single_hands xs = map (\<lambda>(n, h). (n, [h])) xs"

definition give_cards :: "card list \<Rightarrow> (string \<times> hand) list \<Rightarrow> (string \<times> hand) list" where
  "give_cards cs xs = map (\<lambda>(c, (n, h)). (n, add_card h c)) (zip cs xs)"

definition participants :: "(string \<times> int) list \<Rightarrow> (string \<times> int) list" where
  "participants bets = filter (\<lambda>(n, b). 0 < b) bets"

definition new_hands :: "(string \<times> int) list \<Rightarrow> (string \<times> hand) list" where
  "new_hands bets = map (\<lambda>(n, b). (n, Hand\<lparr>bet := b\<rparr>)) (participants bets)"

section \<open>Properties of the hand value\<close>

lemma get_value_loop_eq:
  "get_value_loop cs v_acc aces = (v_acc + soft_total cs, aces + ace_count cs)"
  by (induction cs v_acc aces rule: get_value_loop.induct)
     (simp_all add: soft_total_def ace_count_def)

lemma get_value_while_eq:
  "get_value_while v_acc aces = v_acc - 10 * int (downgrades v_acc aces)"
  by (induction v_acc aces rule: get_value_while.induct) simp_all

lemma soft_hard: "soft_total cs = hard_total cs + 10 * int (ace_count cs)"
  by (induction cs) (simp_all add: soft_total_def hard_total_def ace_count_def)

lemma get_value_while_bust:
  "(get_value_while (hd_total + 10 * int aces) aces > 21) = (hd_total > 21)"
proof (induction aces)
  case 0
  show ?case by simp
next
  case (Suc aces)
  have eq: "hd_total + 10 * int (Suc aces) - 10 = hd_total + 10 * int aces" by simp
  have step: "get_value_while (hd_total + 10 * int (Suc aces)) (Suc aces) =
      (if hd_total + 10 * int (Suc aces) > 21
       then get_value_while (hd_total + 10 * int aces) aces
       else hd_total + 10 * int (Suc aces))"
    by (subst get_value_while.simps) (simp only: eq)
  show ?case
  proof (cases "hd_total + 10 * int (Suc aces) > 21")
    case True
    with step Suc.IH show ?thesis by simp
  next
    case False
    with step show ?thesis by simp
  qed
qed

lemma get_value_eq_while:
  "get_value h = get_value_while (soft_total (cards h)) (ace_count (cards h))"
  by (simp add: get_value_def get_value_loop_eq)

lemma get_value_bust_iff: "(get_value h > 21) = (hard_total (cards h) > 21)"
  by (simp add: get_value_eq_while soft_hard get_value_while_bust)

text \<open>
  C2. The value of a hand is the sum of the base card values with each Ace as 11, less
  10 for each downgrade made while the total is above 21 and Aces remain. It is above 21
  exactly when the sum with every Ace as 1 is above 21, and the bust flag that
  \<open>_update_states\<close> (hence \<open>add_card\<close>) sets says the same.
\<close>

theorem C2_get_value:
  "get_value h = value_spec (cards h)
   \<and> (get_value h > 21) = (hard_total (cards h) > 21)
   \<and> is_bust (update_states h) = (hard_total (cards h) > 21)
   \<and> is_bust (add_card h c) = (hard_total (cards h @ [c]) > 21)"
proof -
  have a: "get_value h = value_spec (cards h)"
    by (simp add: get_value_eq_while get_value_while_eq value_spec_def)
  have b: "is_bust (update_states h) = (hard_total (cards h) > 21)"
    by (simp add: update_states_def Let_def get_value_bust_iff)
  have c: "is_bust (add_card h c) = (hard_total (cards h @ [c]) > 21)"
    by (simp add: add_card_def update_states_def Let_def get_value_bust_iff)
  show ?thesis using a b c get_value_bust_iff [of h] by blast
qed

section \<open>Properties of \<open>add_card\<close> and the hand operations\<close>

lemma cards_update_states [simp]: "cards (update_states h) = cards h"
  by (simp add: update_states_def Let_def)

lemma bet_update_states [simp]: "bet (update_states h) = bet h"
  by (simp add: update_states_def Let_def)

lemma get_value_cards_cong: "cards h = cards h' \<Longrightarrow> get_value h = get_value h'"
  by (simp add: get_value_def)

lemma get_value_update_states [simp]: "get_value (update_states h) = get_value h"
  by (rule get_value_cards_cong) simp

lemma cards_add_card [simp]: "cards (add_card h c) = cards h @ [c]"
  by (simp add: add_card_def Let_def)

lemma bet_add_card [simp]: "bet (add_card h c) = bet h"
  by (simp add: add_card_def Let_def)

lemma doubled_add_card [simp]: "doubled (add_card h c) = doubled h"
  by (simp add: add_card_def update_states_def Let_def)

lemma get_value_add_card: "get_value (add_card h c) = get_value (h\<lparr>cards := cards h @ [c]\<rparr>)"
  by (rule get_value_cards_cong) simp

lemma flags_in_sync_update_states: "flags_in_sync (update_states h)"
  by (simp add: flags_in_sync_def) (simp add: update_states_def Let_def)

lemma flags_in_sync_add_card: "flags_in_sync (add_card h c)"
proof -
  let ?h1 = "update_states (h\<lparr>cards := cards h @ [c]\<rparr>)"
  have sync: "flags_in_sync ?h1" by (rule flags_in_sync_update_states)
  have stand: "flags_in_sync (?h1\<lparr>is_standing := True\<rparr>)"
  proof -
    have "get_value (?h1\<lparr>is_standing := True\<rparr>) = get_value ?h1"
      by (rule get_value_cards_cong) simp
    with sync show ?thesis by (simp add: flags_in_sync_def)
  qed
  from sync stand show ?thesis by (simp add: add_card_def Let_def)
qed

lemma is_blackjack_add_card:
  "is_blackjack (add_card h c) = (length (cards h) = 1 \<and> get_value (add_card h c) = 21)"
  using flags_in_sync_add_card [of h c] by (auto simp: flags_in_sync_def)

lemma length_cards_apply_hand_op:
  "3 \<le> length (cards h) \<Longrightarrow> 3 \<le> length (cards (apply_hand_op h op))"
  by (cases op) (simp_all add: hand_stand_def hand_double_def can_split_def)

lemma length_cards_foldl_hand_op:
  "3 \<le> length (cards h) \<Longrightarrow> 3 \<le> length (cards (foldl apply_hand_op h ops))"
proof (induction ops arbitrary: h)
  case Nil
  then show ?case by simp
next
  case (Cons op ops)
  from Cons.prems have "3 \<le> length (cards (apply_hand_op h op))"
    by (rule length_cards_apply_hand_op)
  then show ?case by (simp add: Cons.IH)
qed

section \<open>Payout classification\<close>

lemma bit_length_le: "n < 2 ^ k \<Longrightarrow> bit_length n \<le> k"
proof (induction k arbitrary: n)
  case 0
  then have "n = 0" by simp
  then show ?case by (simp add: bit_length.simps)
next
  case (Suc k)
  show ?case
  proof (cases "n = 0")
    case True
    then show ?thesis by (simp add: bit_length.simps)
  next
    case False
    from Suc.prems have "n div 2 < 2 ^ k" by simp
    then have "bit_length (n div 2) \<le> k" by (rule Suc.IH)
    with False show ?thesis by (subst bit_length.simps) simp
  qed
qed

lemma to_double_exact: "0 \<le> n \<Longrightarrow> n < 2 ^ 53 \<Longrightarrow> to_double n = n"
proof -
  assume "0 \<le> n" "n < 2 ^ 53"
  then have "nat n < 2 ^ 53" by (simp add: nat_less_iff)
  then have "bit_length (nat n) \<le> 53" by (rule bit_length_le)
  then show ?thesis by (simp add: to_double_def)
qed

text \<open>Below \<open>2^53 / 5\<close> the conversion and the product are exact.\<close>

lemma int_bet_times_2_5_floor:
  assumes "0 \<le> b" and "5 * b < 2 ^ 53"
  shows "int_bet_times_2_5 b = Inr \<lfloor>real_of_int b * 2.5\<rfloor>"
proof -
  from assms have b: "b < 2 ^ 53" by simp
  have x: "to_double b = b" using assms(1) b by (rule to_double_exact)
  have y: "to_double (5 * b) = 5 * b" using assms by (intro to_double_exact) simp_all
  define M :: int where "M = 2 ^ 1024"
  have "(2::int) ^ 53 \<le> 2 ^ 1024" by (rule power_increasing) simp_all
  then have small: "2 ^ 53 \<le> M" by (simp only: M_def)
  have pos: "(0::int) < 2 ^ 53" by simp
  have "real_of_int b * 2.5 = real_of_int (5 * b) / real_of_int 2" by simp
  then have fl: "\<lfloor>real_of_int b * 2.5\<rfloor> = (5 * b) div 2"
    by (simp only: floor_divide_of_int_eq)
  from b small have "\<not> M \<le> b" by linarith
  then have b1: "\<not> 2 ^ 1024 \<le> b" unfolding M_def .
  from assms(2) small pos have "\<not> 2 * M \<le> 5 * b" by linarith
  then have b2: "\<not> 2 * 2 ^ 1024 \<le> 5 * b" unfolding M_def .
  show ?thesis
    using assms(1) b1 b2
    by (simp only: int_bet_times_2_5_def float_mul_2_5_int_def Let_def x y fl if_True if_False)
qed

lemma int_bet_times_2_5_100: "int_bet_times_2_5 100 = Inr 250"
proof -
  have "\<lfloor>real_of_int 100 * 2.5\<rfloor> = (250::int)" by simp
  with int_bet_times_2_5_floor [of 100] show ?thesis by simp
qed

text \<open>
  At 1801439850948199 the bet is a double but five times the bet has 54 bits; half of
  it is a tie, which goes up to the even significand.
\<close>

lemma int_bet_times_2_5_large: "int_bet_times_2_5 1801439850948199 = Inr 4503599627370498"
proof -
  have x: "to_double 1801439850948199 = 1801439850948199"
    by (rule to_double_exact) simp_all
  have len: "bit_length 9007199254740995 = 54"
    by (simp add: bit_length.simps)
  have r: "round_half_even 9007199254740995 (Suc 0) = 4503599627370498"
    by (simp add: round_half_even_def)
  have y: "to_double (5 * 1801439850948199) = 9007199254740996"
    by (simp add: to_double_def Let_def len r)
  have b1: "\<not> (2::int) ^ 1024 \<le> 1801439850948199" by simp
  have b2: "\<not> 2 * (2::int) ^ 1024 \<le> 9007199254740996" by simp
  have d: "(9007199254740996::int) div 2 = 4503599627370498" by simp
  have nn: "(0::int) \<le> 1801439850948199" by simp
  show ?thesis
    using nn b1 b2
    by (simp only: int_bet_times_2_5_def float_mul_2_5_int_def Let_def x y d if_True if_False)
qed

lemma example_hand_flags:
  "flags_in_sync (add_card (add_card (Hand\<lparr>bet := b\<rparr>) (Ace, Spades)) (King, Hearts))"
  "get_value (add_card (add_card (Hand\<lparr>bet := b\<rparr>) (Ace, Spades)) (King, Hearts)) = 21"
  "bet (add_card (add_card (Hand\<lparr>bet := b\<rparr>) (Ace, Spades)) (King, Hearts)) = b"
  "is_blackjack (add_card (add_card (Hand\<lparr>bet := b\<rparr>) (Ace, Spades)) (King, Hearts))"
  "\<not> is_bust (add_card (add_card (Hand\<lparr>bet := b\<rparr>) (Ace, Spades)) (King, Hearts))"
proof -
  let ?h = "add_card (add_card (Hand\<lparr>bet := b\<rparr>) (Ace, Spades)) (King, Hearts)"
  show f: "flags_in_sync ?h" by (rule flags_in_sync_add_card)
  show v: "get_value ?h = 21"
    by (simp add: Hand_def add_card_def update_states_def get_value_def)
  show "bet ?h = b" by (simp add: Hand_def)
  show "is_blackjack ?h" using f v by (simp add: flags_in_sync_def) (simp add: Hand_def)
  show "\<not> is_bust ?h" using f v by (simp add: flags_in_sync_def)
qed

text \<open>
  C1, as stated, fails on large bets. A blackjack on a bet of 1801439850948199 against
  a dealer's 19 is paid 4503599627370498 by the float product of \<open>apply_payouts\<close>; the
  floor of 2.5 times the bet is 4503599627370497.
\<close>

theorem C1_payout_classification_counterexample:
  "0 \<le> bet ex_blackjack_large
   \<and> payout ex_blackjack_large 19 False False = Inr 4503599627370498
   \<and> payout_spec (is_bust ex_blackjack_large) (is_blackjack ex_blackjack_large) False False
        (get_value ex_blackjack_large) 19 (bet ex_blackjack_large) = 4503599627370497"
proof -
  note e = example_hand_flags [of 1801439850948199, folded ex_blackjack_large_def]
  have nonneg: "0 \<le> bet ex_blackjack_large" by (simp add: e(3))
  have code: "payout ex_blackjack_large 19 False False = Inr 4503599627370498"
    using e(4,5) by (simp add: payout_def Let_def e(3) int_bet_times_2_5_large)
  have fl: "\<lfloor>real_of_int 1801439850948199 * 2.5\<rfloor> = (4503599627370497::int)" by simp
  have spec: "payout_spec (is_bust ex_blackjack_large) (is_blackjack ex_blackjack_large)
        False False (get_value ex_blackjack_large) 19 (bet ex_blackjack_large) =
      4503599627370497"
    using e(4,5) by (simp add: payout_spec_def e(3) fl)
  from nonneg code spec show ?thesis by (intro conjI)
qed

text \<open>
  C1, amended. The payout of \<open>apply_payouts\<close> for a hand is a total function of the
  hand's flags, the dealer's flags, the two values and the bet, and follows the
  first-match order of the specification: bust 0; blackjack against a dealer without
  blackjack \<open>int(bet * 2.5)\<close> in float arithmetic; dealer bust twice the bet; higher
  value twice the bet; equal value the bet; otherwise 0. It is the specification's
  classification, with \<open>floor (bet * 2.5)\<close>, on every hand outside the blackjack rule
  and on every hand whose bet is at least 0 and below \<open>2^53 / 5\<close> (up to
  1801439850948198). A blackjack against a dealer's blackjack, on hands whose flags
  agree with their cards, is paid the bet back.
\<close>

theorem C1_payout_classification:
  "(0 \<le> bet h \<and> 5 * bet h < 2 ^ 53 \<or> is_bust h \<or> \<not> is_blackjack h \<or> dealer_blackjack \<longrightarrow>
      payout h dealer_value dealer_bust dealer_blackjack =
        Inr (payout_spec (is_bust h) (is_blackjack h) dealer_bust dealer_blackjack
               (get_value h) dealer_value (bet h)))
   \<and> (\<not> is_bust h \<and> is_blackjack h \<and> \<not> dealer_blackjack \<longrightarrow>
        payout h dealer_value dealer_bust dealer_blackjack = int_bet_times_2_5 (bet h))
   \<and> (flags_in_sync h \<and> flags_in_sync d \<and> is_blackjack h \<and> is_blackjack d \<longrightarrow>
        payout h (get_value d) (is_bust d) (is_blackjack d) = Inr (bet h))"
proof -
  have small: "payout h dealer_value dealer_bust dealer_blackjack =
        Inr (payout_spec (is_bust h) (is_blackjack h) dealer_bust dealer_blackjack
               (get_value h) dealer_value (bet h))"
    if "0 \<le> bet h \<and> 5 * bet h < 2 ^ 53"
  proof -
    from that have "int_bet_times_2_5 (bet h) = Inr \<lfloor>real_of_int (bet h) * 2.5\<rfloor>"
      by (intro int_bet_times_2_5_floor) simp_all
    then show ?thesis by (simp add: payout_def payout_spec_def Let_def)
  qed
  have other: "payout h dealer_value dealer_bust dealer_blackjack =
        Inr (payout_spec (is_bust h) (is_blackjack h) dealer_bust dealer_blackjack
               (get_value h) dealer_value (bet h))"
    if "is_bust h \<or> \<not> is_blackjack h \<or> dealer_blackjack"
    using that by (auto simp: payout_def payout_spec_def Let_def)
  have rule2: "payout h dealer_value dealer_bust dealer_blackjack = int_bet_times_2_5 (bet h)"
    if "\<not> is_bust h \<and> is_blackjack h \<and> \<not> dealer_blackjack"
    using that by (simp add: payout_def Let_def)
  have push: "payout h (get_value d) (is_bust d) (is_blackjack d) = Inr (bet h)"
    if "flags_in_sync h \<and> flags_in_sync d \<and> is_blackjack h \<and> is_blackjack d"
  proof -
    from that have "\<not> is_bust h" "get_value h = 21" "get_value d = 21" "\<not> is_bust d"
      by (auto simp: flags_in_sync_def)
    with that show ?thesis by (simp add: payout_def Let_def)
  qed
  from small other rule2 push show ?thesis by blast
qed

theorem C1_payout_classification_witness:
  "0 \<le> bet ex_blackjack \<and> 5 * bet ex_blackjack < 2 ^ 53
   \<and> flags_in_sync ex_blackjack \<and> is_blackjack ex_blackjack \<and> \<not> is_bust ex_blackjack
   \<and> payout ex_blackjack 19 False False = Inr 250
   \<and> payout_spec False True False False 21 19 100 = 250
   \<and> payout ex_blackjack 19 False False = int_bet_times_2_5 (bet ex_blackjack)
   \<and> payout ex_blackjack (get_value ex_blackjack) (is_bust ex_blackjack)
         (is_blackjack ex_blackjack) = Inr 100"
proof -
  note e = example_hand_flags [of 100, folded ex_blackjack_def]
  have nonneg: "0 \<le> bet ex_blackjack" and bound: "5 * bet ex_blackjack < 2 ^ 53"
    by (simp_all add: e(3))
  have p: "payout_spec False True False False 21 19 100 = 250"
    by (simp add: payout_spec_def)
  note inst = C1_payout_classification [where h = ex_blackjack and dealer_value = 19
      and dealer_bust = False and dealer_blackjack = False and d = ex_blackjack]
  from inst nonneg bound
  have a: "payout ex_blackjack 19 False False =
      Inr (payout_spec (is_bust ex_blackjack) (is_blackjack ex_blackjack) False False
             (get_value ex_blackjack) 19 (bet ex_blackjack))"
    by blast
  from inst e(4,5)
  have r: "payout ex_blackjack 19 False False = int_bet_times_2_5 (bet ex_blackjack)"
    by blast
  from inst e(1,4)
  have q: "payout ex_blackjack (get_value ex_blackjack) (is_bust ex_blackjack)
         (is_blackjack ex_blackjack) = Inr (bet ex_blackjack)"
    by blast
  have a': "payout ex_blackjack 19 False False = Inr 250"
    using a e(4,5) p by (simp add: e(2,3))
  have q': "payout ex_blackjack (get_value ex_blackjack) (is_bust ex_blackjack)
         (is_blackjack ex_blackjack) = Inr 100"
    using q by (simp add: e(3))
  from nonneg bound e(1,4,5) a' p r q' show ?thesis by (intro conjI)
qed

section \<open>Splitting is closed off by a third card\<close>

text \<open>
  C8. \<open>can_split\<close> holds exactly for two cards of equal rank. From a hand of three or
  more cards, whatever operations follow (hit, stand, double, split), the hand keeps
  three or more cards and \<open>can_split\<close> stays false: the split pops a card only under
  \<open>can_split\<close>, that is from a hand of exactly two cards.
\<close>

theorem C8_can_split:
  "can_split h = (length (cards h) = 2 \<and> fst (cards h ! 0) = fst (cards h ! 1))
   \<and> (3 \<le> length (cards h) \<longrightarrow>
        (\<forall>ops. 3 \<le> length (cards (foldl apply_hand_op h ops))
               \<and> \<not> can_split (foldl apply_hand_op h ops)))"
proof -
  have iff: "can_split h = (length (cards h) = 2 \<and> fst (cards h ! 0) = fst (cards h ! 1))"
    by (simp add: can_split_def)
  have later: "3 \<le> length (cards (foldl apply_hand_op h ops))
               \<and> \<not> can_split (foldl apply_hand_op h ops)"
    if "3 \<le> length (cards h)" for ops
  proof -
    from that have "3 \<le> length (cards (foldl apply_hand_op h ops))"
      by (rule length_cards_foldl_hand_op)
    then show ?thesis by (simp add: can_split_def)
  qed
  from iff later show ?thesis by blast
qed

theorem C8_can_split_witness:
  "can_split ex_pair
   \<and> 3 \<le> length (cards (add_card ex_pair (R8, Clubs)))
   \<and> \<not> can_split (foldl apply_hand_op (add_card ex_pair (R8, Clubs))
                      [OpSplit (R8, Diamonds), OpHit (R2, Clubs), OpSplit (R2, Spades)])"
proof -
  have l: "3 \<le> length (cards (add_card ex_pair (R8, Clubs)))"
    by (simp add: ex_pair_def Hand_def)
  have s: "can_split ex_pair"
    by (simp add: can_split_def ex_pair_def Hand_def)
  from C8_can_split [of "add_card ex_pair (R8, Clubs)"] l s show ?thesis by blast
qed

section \<open>Dealing from the deck\<close>

declare dealer_loop.simps [simp del]

lemma get_value_eq_spec: "get_value h = value_spec (cards h)"
  by (simp add: get_value_eq_while get_value_while_eq value_spec_def)

lemma length_fresh_cards: "length (fresh_cards n) = 52 * n"
  by (simp add: fresh_cards_def length_concat sum_list_replicate RANKS_def SUITS_def)

lemma is_shuffle_length: "is_shuffle sh \<Longrightarrow> length (fst (sh g cs)) = length cs"
  unfolding is_shuffle_def by (metis size_mset)

lemma deal_ok:
  assumes "is_shuffle sh" "0 < num_decks d"
  shows "\<exists>c d' g'. deal sh g d = Inr (c, d', g') \<and> num_decks d' = num_decks d"
proof (cases "length (deck_cards d) = 0 \<or> length (deck_cards d) < 15")
  case True
  obtain cs g1 where sh: "sh g (fresh_cards (num_decks d)) = (cs, g1)"
    by (cases "sh g (fresh_cards (num_decks d))")
  from is_shuffle_length [OF assms(1), of g "fresh_cards (num_decks d)"] sh assms(2)
  have "cs \<noteq> []" by (auto simp: length_fresh_cards)
  with True sh show ?thesis by (simp add: deal_def deck_build_def)
next
  case False
  then have "deck_cards d \<noteq> []" by auto
  with False show ?thesis by (simp add: deal_def)
qed

lemma deal_no_reshuffle:
  "15 \<le> length (deck_cards d) \<Longrightarrow>
   deal sh g d = Inr (last (deck_cards d), d\<lparr>deck_cards := butlast (deck_cards d)\<rparr>, g)"
  by (auto simp: deal_def)

lemma draw_ok:
  assumes "is_shuffle sh" "deck_ok s"
  shows "\<exists>c d' g'. draw sh s = Inr (c, s\<lparr>deck := Some d', rng := g'\<rparr>) \<and> 0 < num_decks d'"
proof -
  from assms(2) obtain d where d: "deck s = Some d" "0 < num_decks d"
    by (auto simp: deck_ok_def split: option.splits)
  from deal_ok [OF assms(1) d(2), of "rng s"]
  obtain c d' g' where "deal sh (rng s) d = Inr (c, d', g')" "num_decks d' = num_decks d"
    by blast
  with d show ?thesis by (auto simp: draw_def)
qed

lemma draw_frame:
  assumes "draw sh s = Inr (c, s1)"
  shows "\<exists>d' g'. s1 = s\<lparr>deck := Some d', rng := g'\<rparr>"
  using assms by (auto simp: draw_def split: option.splits sum.splits)

lemma draw_no_reshuffle:
  "deck s = Some d \<Longrightarrow> 15 \<le> length (deck_cards d) \<Longrightarrow>
   draw sh s = Inr (last (deck_cards d),
                    s\<lparr>deck := Some (d\<lparr>deck_cards := butlast (deck_cards d)\<rparr>)\<rparr>)"
  by (simp add: draw_def deal_no_reshuffle)

lemma draw_InrD:
  assumes "draw sh s = Inr (c, s1)"
  shows "\<exists>d d' g'. deck s = Some d \<and> deal sh (rng s) d = Inr (c, d', g')
           \<and> s1 = s\<lparr>deck := Some d', rng := g'\<rparr>"
  using assms by (auto simp: draw_def split: option.splits sum.splits)

section \<open>The dealer's loop\<close>

lemma dealer_loop_stop:
  "dealer_hand s = Some dh \<Longrightarrow> \<not> get_value dh < 17 \<Longrightarrow> dealer_loop sh s = Inr s"
  by (subst dealer_loop.simps) simp

lemma dealer_loop_step:
  "dealer_hand s = Some dh \<Longrightarrow> get_value dh < 17 \<Longrightarrow> draw sh s = Inr (c, s1) \<Longrightarrow>
   dealer_loop sh s = dealer_loop sh (s1\<lparr>dealer_hand := Some (add_card dh c)\<rparr>)"
  by (subst dealer_loop.simps) simp

lemma dealer_loop_ok:
  "is_shuffle sh \<Longrightarrow> dealer_hand s = Some dh \<Longrightarrow> deck_ok s \<Longrightarrow>
   \<exists>s' dh'. dealer_loop sh s = Inr s' \<and> dealer_hand s' = Some dh' \<and> 17 \<le> get_value dh'"
proof (induction sh s arbitrary: dh rule: dealer_loop.induct)
  case (1 sh s)
  show ?case
  proof (cases "get_value dh < 17")
    case True
    from draw_ok [OF "1.prems"(1) "1.prems"(3)]
    obtain c d' g' where dr: "draw sh s = Inr (c, s\<lparr>deck := Some d', rng := g'\<rparr>)"
      and nd: "0 < num_decks d'" by blast
    let ?s1 = "s\<lparr>deck := Some d', rng := g'\<rparr>"
    let ?s2 = "?s1\<lparr>dealer_hand := Some (add_card dh c)\<rparr>"
    have ok: "deck_ok ?s2" using nd by (simp add: deck_ok_def)
    have "\<exists>s' dh'. dealer_loop sh ?s2 = Inr s' \<and> dealer_hand s' = Some dh' \<and> 17 \<le> get_value dh'"
      by (rule "1.IH" [OF "1.prems"(2) True dr refl "1.prems"(1) _ ok]) simp
    then show ?thesis
      by (simp add: dealer_loop_step [OF "1.prems"(2) True dr])
  next
    case False
    with "1.prems"(2) show ?thesis by (simp add: dealer_loop_stop)
  qed
qed


lemma dealer_loop_draw:
  assumes "dealer_loop sh s = Inr s'" "dealer_hand s = Some dh" "get_value dh < 17"
  obtains c s1 where "draw sh s = Inr (c, s1)"
    and "dealer_loop sh (s1\<lparr>dealer_hand := Some (add_card dh c)\<rparr>) = Inr s'"
proof -
  from assms obtain c s1 where dr: "draw sh s = Inr (c, s1)"
    by (subst (asm) dealer_loop.simps) (auto split: sum.splits)
  with assms have "dealer_loop sh (s1\<lparr>dealer_hand := Some (add_card dh c)\<rparr>) = Inr s'"
    by (simp add: dealer_loop_step)
  with dr that show ?thesis by blast
qed

lemma dealer_loop_trace:
  "dealer_loop sh s = Inr s' \<Longrightarrow> dealer_hand s = Some dh \<Longrightarrow>
   \<exists>dh' drawn. dealer_hand s' = Some dh' \<and> cards dh' = cards dh @ drawn
      \<and> (\<forall>k<length drawn. value_spec (cards dh @ take k drawn) < 17)"
proof (induction sh s arbitrary: dh rule: dealer_loop.induct)
  case (1 sh s)
  show ?case
  proof (cases "get_value dh < 17")
    case True
    from "1.prems" True obtain c s1 where dr: "draw sh s = Inr (c, s1)"
      and run: "dealer_loop sh (s1\<lparr>dealer_hand := Some (add_card dh c)\<rparr>) = Inr s'"
      by (rule dealer_loop_draw)
    have "\<exists>dh' drawn. dealer_hand s' = Some dh' \<and> cards dh' = cards (add_card dh c) @ drawn
      \<and> (\<forall>k<length drawn. value_spec (cards (add_card dh c) @ take k drawn) < 17)"
      by (rule "1.IH" [OF "1.prems"(2) True dr refl run]) simp
    then obtain dh' drawn where fin: "dealer_hand s' = Some dh'"
      and cs: "cards dh' = (cards dh @ [c]) @ drawn"
      and below: "\<forall>k<length drawn. value_spec ((cards dh @ [c]) @ take k drawn) < 17"
      by auto
    have "\<forall>k<length (c # drawn). value_spec (cards dh @ take k (c # drawn)) < 17"
    proof (intro allI impI)
      fix k assume k: "k < length (c # drawn)"
      show "value_spec (cards dh @ take k (c # drawn)) < 17"
      proof (cases k)
        case 0
        with True get_value_eq_spec [of dh] show ?thesis by simp
      next
        case (Suc j)
        with k below show ?thesis by simp
      qed
    qed
    with fin cs show ?thesis by (intro exI [of _ dh'] exI [of _ "c # drawn"]) simp
  next
    case False
    with "1.prems" have "s' = s" by (simp add: dealer_loop_stop)
    with "1.prems"(2) show ?thesis by (intro exI [of _ dh] exI [of _ "[]"]) simp
  qed
qed

text \<open>While the shoe is not rebuilt, the cards drawn are its last cards, last first.\<close>

lemma dealer_loop_shoe_order:
  "dealer_loop sh s = Inr s' \<Longrightarrow> dealer_hand s = Some dh \<Longrightarrow> deck s = Some d \<Longrightarrow>
   dealer_hand s' = Some dh' \<Longrightarrow> cards dh' = cards dh @ drawn \<Longrightarrow>
   length drawn + 14 \<le> length (deck_cards d) \<Longrightarrow>
   drawn = take (length drawn) (rev (deck_cards d))"
proof (induction sh s arbitrary: dh d drawn rule: dealer_loop.induct)
  case (1 sh s)
  show ?case
  proof (cases "get_value dh < 17")
    case True
    from "1.prems"(1,2) True obtain c s1 where dr: "draw sh s = Inr (c, s1)"
      and run: "dealer_loop sh (s1\<lparr>dealer_hand := Some (add_card dh c)\<rparr>) = Inr s'"
      by (rule dealer_loop_draw)
    from dealer_loop_trace [OF run, of "add_card dh c"] "1.prems"(4)
    obtain rest where rest: "cards dh' = (cards dh @ [c]) @ rest" by auto
    with "1.prems"(5) have drawn: "drawn = c # rest" by simp
    with "1.prems"(6) have big: "15 \<le> length (deck_cards d)" by simp
    let ?d1 = "d\<lparr>deck_cards := butlast (deck_cards d)\<rparr>"
    have "Inr (c, s1) = (Inr (last (deck_cards d), s\<lparr>deck := Some ?d1\<rparr>) :: error + card \<times> session)"
      using dr draw_no_reshuffle [OF "1.prems"(3) big, of sh] by (simp only:)
    then have c: "c = last (deck_cards d)" and s1: "s1 = s\<lparr>deck := Some ?d1\<rparr>"
      by simp_all
    have "rest = take (length rest) (rev (deck_cards ?d1))"
    proof (rule "1.IH" [OF "1.prems"(2) True dr refl run _ _ "1.prems"(4)])
      show "dealer_hand (s1\<lparr>dealer_hand := Some (add_card dh c)\<rparr>) = Some (add_card dh c)"
        by simp
      show "deck (s1\<lparr>dealer_hand := Some (add_card dh c)\<rparr>) = Some ?d1"
        by (simp add: s1)
      show "cards dh' = cards (add_card dh c) @ rest" using rest by simp
      show "length rest + 14 \<le> length (deck_cards ?d1)"
        using "1.prems"(6) drawn by simp
    qed
    then have ih: "take (length rest) (rev (butlast (deck_cards d))) = rest" by simp
    from big have rv: "rev (deck_cards d) = last (deck_cards d) # rev (butlast (deck_cards d))"
      by (cases "deck_cards d" rule: rev_cases) auto
    have "take (length drawn) (rev (deck_cards d)) =
          take (Suc (length rest)) (last (deck_cards d) # rev (butlast (deck_cards d)))"
      using drawn by (subst rv) simp
    also have "\<dots> = last (deck_cards d) # take (length rest) (rev (butlast (deck_cards d)))"
      by simp
    also have "\<dots> = drawn" using ih c drawn by simp
    finally show ?thesis by simp
  next
    case False
    with "1.prems"(1,2) have "s' = s" by (simp add: dealer_loop_stop)
    with "1.prems"(2,4,5) show ?thesis by simp
  qed
qed

text \<open>The loop reads and writes the dealer's hand, the deck and the generator only.\<close>

lemma dealer_loop_determined:
  "dealer_hand s2 = dealer_hand s \<Longrightarrow> deck s2 = deck s \<Longrightarrow> rng s2 = rng s \<Longrightarrow>
   map_sum id (\<lambda>t. (dealer_hand t, deck t, rng t)) (dealer_loop sh s2) =
   map_sum id (\<lambda>t. (dealer_hand t, deck t, rng t)) (dealer_loop sh s)"
proof (induction sh s arbitrary: s2 rule: dealer_loop.induct)
  case (1 sh s)
  show ?case
  proof (cases "dealer_hand s")
    case None
    with "1.prems" show ?thesis by (simp add: dealer_loop.simps)
  next
    case (Some dh)
    show ?thesis
    proof (cases "get_value dh < 17")
      case low: True
      show ?thesis
      proof (cases "draw sh s")
        case (Inl e)
        with "1.prems" have "draw sh s2 = Inl e"
          by (auto simp: draw_def split: option.splits sum.splits)
        with Inl Some low "1.prems" show ?thesis by (simp add: dealer_loop.simps)
      next
        case (Inr p)
        obtain c s1 where p: "p = (c, s1)" by (cases p)
        have dr: "draw sh s = Inr (c, s1)" using Inr p by simp
        from draw_InrD [OF dr] obtain d d' g' where d: "deck s = Some d"
          and dl: "deal sh (rng s) d = Inr (c, d', g')"
          and s1: "s1 = s\<lparr>deck := Some d', rng := g'\<rparr>"
          by blast
        from d dl "1.prems" have dr2: "draw sh s2 = Inr (c, s2\<lparr>deck := Some d', rng := g'\<rparr>)"
          by (simp add: draw_def)
        have "map_sum id (\<lambda>t. (dealer_hand t, deck t, rng t))
                (dealer_loop sh (s2\<lparr>deck := Some d', rng := g', dealer_hand := Some (add_card dh c)\<rparr>)) =
              map_sum id (\<lambda>t. (dealer_hand t, deck t, rng t))
                (dealer_loop sh (s1\<lparr>dealer_hand := Some (add_card dh c)\<rparr>))"
          by (rule "1.IH" [OF Some low dr refl]) (simp_all add: s1)
        moreover have "dealer_loop sh s2 =
            dealer_loop sh (s2\<lparr>deck := Some d', rng := g', dealer_hand := Some (add_card dh c)\<rparr>)"
          using dealer_loop_step [OF _ low dr2] Some "1.prems"(1) by simp
        moreover have "dealer_loop sh s = dealer_loop sh (s1\<lparr>dealer_hand := Some (add_card dh c)\<rparr>)"
          by (rule dealer_loop_step [OF Some low dr])
        ultimately show ?thesis by (simp only:)
      qed
    next
      case False
      with Some "1.prems" show ?thesis by (simp add: dealer_loop_stop)
    qed
  qed
qed

lemma dealer_loop_frame:
  "dealer_loop sh s = Inr s' \<Longrightarrow>
   bankrolls s' = bankrolls s \<and> player_hands s' = player_hands s
   \<and> payouts_applied s' = payouts_applied s \<and> dealer_turn s' = dealer_turn s
   \<and> round_over s' = round_over s \<and> round_active s' = round_active s
   \<and> betting_phase s' = betting_phase s
   \<and> current_player_idx s' = current_player_idx s \<and> current_hand_idx s' = current_hand_idx s"
proof (induction sh s rule: dealer_loop.induct)
  case (1 sh s)
  from "1.prems" obtain dh where dh: "dealer_hand s = Some dh"
    by (subst (asm) dealer_loop.simps) (auto split: option.splits)
  show ?case
  proof (cases "get_value dh < 17")
    case True
    from "1.prems" dh True obtain c s1 where dr: "draw sh s = Inr (c, s1)"
      and run: "dealer_loop sh (s1\<lparr>dealer_hand := Some (add_card dh c)\<rparr>) = Inr s'"
      by (rule dealer_loop_draw)
    from draw_frame [OF dr] obtain d' g' where s1: "s1 = s\<lparr>deck := Some d', rng := g'\<rparr>"
      by blast
    from "1.IH" [OF dh True dr refl run] show ?thesis by (simp add: s1)
  next
    case False
    with "1.prems" dh show ?thesis by (simp add: dealer_loop_stop)
  qed
qed


lemma value_spec_eq_get_value: "value_spec cs = get_value (h\<lparr>cards := cs\<rparr>)"
  by (simp add: get_value_eq_spec)

text \<open>
  C3. With a deck of at least one pack and a shuffle that permutes, the dealer's loop
  returns. The dealer's final cards are the starting cards followed by the cards drawn;
  the value is below 17 at the start of every draw and at least 17 at the end (it may be
  above 21); a dealer who starts at 17 or more draws nothing and the session is
  unchanged. While the shoe is not rebuilt the cards drawn are the last cards of the
  shoe's list, last first; and the final hand depends on the session only through the
  dealer's hand, the deck and the generator.
\<close>

theorem C3_dealer_auto_play:
  assumes "is_shuffle sh" and "dealer_hand s = Some dh" and "deck s = Some d"
    and "0 < num_decks d"
  shows "\<exists>s' dh' drawn.
           dealer_loop sh s = Inr s' \<and> dealer_hand s' = Some dh'
           \<and> cards dh' = cards dh @ drawn
           \<and> 17 \<le> get_value dh'
           \<and> (\<forall>k<length drawn. get_value (dh\<lparr>cards := cards dh @ take k drawn\<rparr>) < 17)
           \<and> (17 \<le> get_value dh \<longrightarrow> s' = s)
           \<and> (length drawn + 14 \<le> length (deck_cards d) \<longrightarrow>
                drawn = take (length drawn) (rev (deck_cards d)))
           \<and> (\<forall>s2. dealer_hand s2 = Some dh \<and> deck s2 = Some d \<and> rng s2 = rng s \<longrightarrow>
                (\<exists>t. dealer_loop sh s2 = Inr t \<and> dealer_hand t = Some dh'))"
proof -
  from assms(3,4) have ok: "deck_ok s" by (simp add: deck_ok_def)
  from dealer_loop_ok [OF assms(1,2) ok]
  obtain s' dh' where run: "dealer_loop sh s = Inr s'"
    and fin: "dealer_hand s' = Some dh'" and high: "17 \<le> get_value dh'"
    by blast
  from dealer_loop_trace [OF run assms(2)] fin
  obtain drawn where cs: "cards dh' = cards dh @ drawn"
    and below: "\<forall>k<length drawn. value_spec (cards dh @ take k drawn) < 17"
    by auto
  from below have below': "\<forall>k<length drawn. get_value (dh\<lparr>cards := cards dh @ take k drawn\<rparr>) < 17"
    by (simp add: value_spec_eq_get_value [of _ dh])
  have stop: "17 \<le> get_value dh \<longrightarrow> s' = s"
    using run dealer_loop_stop [OF assms(2), of sh] by auto
  have order: "length drawn + 14 \<le> length (deck_cards d) \<longrightarrow>
      drawn = take (length drawn) (rev (deck_cards d))"
    using dealer_loop_shoe_order [OF run assms(2,3) fin cs] by blast
  have det: "\<exists>t. dealer_loop sh s2 = Inr t \<and> dealer_hand t = Some dh'"
    if "dealer_hand s2 = Some dh \<and> deck s2 = Some d \<and> rng s2 = rng s" for s2
  proof -
    from that assms(2,3)
    have "map_sum id (\<lambda>t. (dealer_hand t, deck t, rng t)) (dealer_loop sh s2) =
          map_sum id (\<lambda>t. (dealer_hand t, deck t, rng t)) (dealer_loop sh s)"
      by (intro dealer_loop_determined) simp_all
    with run fin show ?thesis by (cases "dealer_loop sh s2") auto
  qed
  from run fin cs high below' stop order det show ?thesis by blast
qed

theorem C3_dealer_auto_play_witness:
  "is_shuffle ex_shuffle \<and> dealer_hand ex_dealer_turn = Some ex_sixteen
   \<and> get_value ex_sixteen = 16
   \<and> (\<exists>s' dh'. dealer_loop ex_shuffle ex_dealer_turn = Inr s' \<and> dealer_hand s' = Some dh'
         \<and> cards dh' = cards ex_sixteen @ [(King, Diamonds)] \<and> get_value dh' = 26)"
proof -
  have h1: "is_shuffle ex_shuffle" by (simp add: is_shuffle_def ex_shuffle_def)
  have h2: "dealer_hand ex_dealer_turn = Some ex_sixteen"
    by (simp add: ex_dealer_turn_def)
  have h3: "deck ex_dealer_turn =
      Some \<lparr>num_decks = 6, deck_cards = ex_filler @ [(King, Diamonds)]\<rparr>"
    by (simp add: ex_dealer_turn_def)
  have h4: "0 < num_decks \<lparr>num_decks = 6, deck_cards = ex_filler @ [(King, Diamonds)]\<rparr>"
    by simp
  have v: "get_value ex_sixteen = 16"
    by (simp add: ex_sixteen_def Hand_def get_value_def)
  have dr: "draw ex_shuffle ex_dealer_turn =
      Inr ((King, Diamonds),
           ex_dealer_turn\<lparr>deck := Some \<lparr>num_decks = 6, deck_cards = ex_filler\<rparr>\<rparr>)"
    by (subst draw_no_reshuffle [OF h3]) (simp_all add: ex_filler_def)
  have v2: "get_value (add_card ex_sixteen (King, Diamonds)) = 26"
    by (simp add: ex_sixteen_def Hand_def get_value_def)
  have run: "dealer_loop ex_shuffle ex_dealer_turn =
      Inr (ex_dealer_turn\<lparr>deck := Some \<lparr>num_decks = 6, deck_cards = ex_filler\<rparr>,
                          dealer_hand := Some (add_card ex_sixteen (King, Diamonds))\<rparr>)"
    using v v2 by (simp add: dealer_loop_step [OF h2 _ dr] dealer_loop_stop)
  from C3_dealer_auto_play [OF h1 h2 h3 h4] h1 h2 v v2 run show ?thesis by simp
qed

section \<open>The example round\<close>

lemmas ex_defs = ex_table_def ex_dealt_def ex_doubled_def ex_settled_def ex_hand_11_def
  ex_dealer_19_def ex_hand_20_def ex_bets_def ex_filler_def ex_shuffle_def
  STARTING_CHIPS_def MIN_BET_def

lemmas hand_defs = Hand_def add_card_def update_states_def get_value_def hand_double_def
  hand_stand_def hand_split_keep_def hand_split_new_def can_double_def can_split_def
  playable_def



lemma ex_deal_cards: "deal_cards ex_shuffle ex_bets ex_table = Inr ex_dealt"
  by (simp add: deal_cards_def deal_round_def draw_def deal_def ex_defs hand_defs)

lemma ex_action_double: "action_double ex_shuffle ex_dealt = Inr ex_doubled"
  by (simp add: action_double_def controls_def current_def set_hands_def draw_def deal_def
      ex_defs hand_defs)

lemma ex_reveal_dealer: "reveal_dealer ex_shuffle ex_doubled = Inr ex_settled"
  by (simp add: reveal_dealer_def dealer_loop.simps apply_payouts_def payout_def
      ex_defs hand_defs)

lemma ex_controls_doubled:
  "controls ex_doubled = Inr (Some (''Player 1'', [ex_hand_20], ex_hand_20, 800))"
  by (simp add: controls_def current_def ex_defs)

lemma ex_all_done_doubled: "all_done ex_doubled [ex_hand_20] ex_hand_20"
  by (simp add: all_done_def ex_defs)

lemma ex_reveal_button: "reveal_button ex_shuffle ex_doubled = Inr ex_settled"
  by (simp add: reveal_button_def ex_controls_doubled ex_all_done_doubled ex_reveal_dealer)

section \<open>Settlement\<close>

lemma dealer_loop_final:
  "dealer_loop sh s = Inr s' \<Longrightarrow> \<exists>dh'. dealer_hand s' = Some dh' \<and> 17 \<le> get_value dh'"
proof (induction sh s rule: dealer_loop.induct)
  case (1 sh s)
  from "1.prems" obtain dh where dh: "dealer_hand s = Some dh"
    by (subst (asm) dealer_loop.simps) (auto split: option.splits)
  show ?case
  proof (cases "get_value dh < 17")
    case True
    from "1.prems" dh True obtain c s1 where dr: "draw sh s = Inr (c, s1)"
      and run: "dealer_loop sh (s1\<lparr>dealer_hand := Some (add_card dh c)\<rparr>) = Inr s'"
      by (rule dealer_loop_draw)
    from "1.IH" [OF dh True dr refl run] show ?thesis .
  next
    case False
    with "1.prems" dh show ?thesis by (simp add: dealer_loop_stop)
  qed
qed

lemma apply_payouts_flag: "apply_payouts s = Inr s' \<Longrightarrow> payouts_applied s'"
  by (auto simp: apply_payouts_def split: option.splits sum.splits)

lemma apply_payouts_dealer: "apply_payouts s = Inr s' \<Longrightarrow> dealer_hand s' = dealer_hand s"
  by (auto simp: apply_payouts_def split: option.splits sum.splits)

lemma reveal_dealer_settled:
  assumes "reveal_dealer sh s = Inr s1"
  shows "payouts_applied s1 \<and> round_over s1 \<and> dealer_turn s1
         \<and> (\<exists>dh. dealer_hand s1 = Some dh \<and> 17 \<le> get_value dh)"
proof -
  from assms obtain t where loop: "dealer_loop sh (s\<lparr>dealer_turn := True\<rparr>) = Inr t"
    by (auto simp: reveal_dealer_def split: sum.splits)
  from dealer_loop_final [OF loop] obtain dh where dh: "dealer_hand t = Some dh"
    and high: "17 \<le> get_value dh" by blast
  from dealer_loop_frame [OF loop] have turn: "dealer_turn t" by simp
  show ?thesis
  proof (cases "payouts_applied t")
    case True
    with assms loop have "s1 = t\<lparr>round_over := True\<rparr>"
      by (simp add: reveal_dealer_def)
    with True dh high turn show ?thesis by simp
  next
    case False
    with assms loop obtain u where pay: "apply_payouts t = Inr u"
      and s1: "s1 = u\<lparr>round_over := True\<rparr>"
      by (auto simp: reveal_dealer_def split: sum.splits)
    from pay have "dealer_turn u = dealer_turn t"
      by (auto simp: apply_payouts_def split: option.splits sum.splits)
    with apply_payouts_flag [OF pay] apply_payouts_dealer [OF pay] s1 dh high turn
    show ?thesis by simp
  qed
qed

lemma reveal_dealer_again:
  assumes "payouts_applied s1" "round_over s1" "dealer_turn s1"
    and "dealer_hand s1 = Some dh" "17 \<le> get_value dh"
  shows "reveal_dealer sh s1 = Inr s1"
proof -
  have same: "s1\<lparr>dealer_turn := True\<rparr> = s1" using assms(3) by simp
  have "dealer_loop sh s1 = Inr s1"
    using assms(4,5) by (simp add: dealer_loop_stop)
  moreover have "s1\<lparr>round_over := True\<rparr> = s1" using assms(2) by simp
  ultimately show ?thesis using assms(1) by (simp add: reveal_dealer_def same)
qed

text \<open>
  C6. After the Reveal Dealer handler has run on a round, running it again on the
  resulting session returns that session unchanged: the dealer draws nothing, the
  payouts are not applied a second time and every bankroll is as it was.
\<close>

theorem C6_settlement_once:
  "reveal_dealer sh s = Inr s1 \<Longrightarrow>
   reveal_dealer sh s1 = Inr s1
   \<and> (\<exists>s2. reveal_dealer sh s1 = Inr s2 \<and> bankrolls s2 = bankrolls s1)"
proof -
  assume first: "reveal_dealer sh s = Inr s1"
  from reveal_dealer_settled [OF first]
  obtain dh where "payouts_applied s1" "round_over s1" "dealer_turn s1"
    "dealer_hand s1 = Some dh" "17 \<le> get_value dh" by blast
  then have "reveal_dealer sh s1 = Inr s1" by (rule reveal_dealer_again)
  then show ?thesis by simp
qed

theorem C6_settlement_once_witness:
  "reveal_dealer ex_shuffle ex_doubled = Inr ex_settled
   \<and> bankrolls ex_doubled ''Player 1'' = Some 800
   \<and> bankrolls ex_settled ''Player 1'' = Some 1200
   \<and> reveal_dealer ex_shuffle ex_settled = Inr ex_settled"
proof -
  have b1: "bankrolls ex_doubled ''Player 1'' = Some 800"
    by (simp add: ex_defs)
  have b2: "bankrolls ex_settled ''Player 1'' = Some 1200"
    by (simp add: ex_defs)
  from C6_settlement_once [OF ex_reveal_dealer]
  have again: "reveal_dealer ex_shuffle ex_settled = Inr ex_settled" by (rule conjunct1)
  from ex_reveal_dealer b1 b2 again show ?thesis by (intro conjI)
qed

section \<open>The example round with a split\<close>

lemmas ex_aces_defs = ex_aces_next_def ex_extra_def ex_hand_aces_def ex_hand_ace_king_def ex_hand_ace_five_def
  ex_table_aces_def ex_aces_dealt_def ex_aces_split_def ex_aces_second_def
  ex_aces_stood_def ex_aces_settled_def

lemma ex_aces_deal_cards: "deal_cards ex_shuffle ex_bets ex_table_aces = Inr ex_aces_dealt"
  by (simp add: deal_cards_def deal_round_def draw_def deal_def ex_defs ex_aces_defs hand_defs)

lemma ex_aces_action_split: "action_split ex_shuffle ex_aces_dealt = Inr ex_aces_split"
  by (simp add: action_split_def controls_def current_def set_hands_def draw_def deal_def
      list_insert_def ex_defs ex_aces_defs hand_defs)

lemma ex_aces_next_hand: "next_hand ex_aces_split = Inr ex_aces_second"
  by (simp add: next_hand_def controls_def current_def all_done_def ex_defs ex_aces_defs)

lemma ex_aces_action_stand: "action_stand ex_aces_second = Inr ex_aces_stood"
  by (simp add: action_stand_def controls_def current_def set_hands_def
      ex_defs ex_aces_defs hand_defs)

lemma ex_aces_reveal_dealer: "reveal_dealer ex_shuffle ex_aces_stood = Inr ex_aces_settled"
  by (simp add: reveal_dealer_def dealer_loop.simps apply_payouts_def payout_def
      int_bet_times_2_5_100 ex_defs ex_aces_defs hand_defs)

lemma ex_aces_reveal_button: "reveal_button ex_shuffle ex_aces_stood = Inr ex_aces_settled"
proof -
  have "controls ex_aces_stood =
      Inr (Some (''Player 1'', [ex_hand_ace_king, ex_hand_ace_five\<lparr>is_standing := True\<rparr>],
                 ex_hand_ace_five\<lparr>is_standing := True\<rparr>, 800))"
    by (simp add: controls_def current_def ex_defs ex_aces_defs)
  moreover have "all_done ex_aces_stood
      [ex_hand_ace_king, ex_hand_ace_five\<lparr>is_standing := True\<rparr>]
      (ex_hand_ace_five\<lparr>is_standing := True\<rparr>)"
    by (simp add: all_done_def ex_defs ex_aces_defs)
  ultimately show ?thesis by (simp add: reveal_button_def ex_aces_reveal_dealer)
qed

lemma ex_aces_next_round:
  "deal_cards ex_shuffle ex_bets (next_round_no_save ex_aces_settled) = Inr ex_aces_next"
  by (simp add: deal_cards_def deal_round_def draw_def deal_def next_round_no_save_def
      ex_defs ex_aces_defs hand_defs)

section \<open>The next round\<close>

lemma deal_cards_pointer:
  assumes "\<exists>b \<in> set (map snd bets). b \<ge> MIN_BET" and "deal_cards sh bets s = Inr u"
  shows "current_player_idx u = 0 \<and> current_hand_idx u = 0"
proof -
  obtain d0 g0 where dg:
    "(case deck s of None \<Rightarrow> Deck sh (rng s) 6 | Some d \<Rightarrow> (d, rng s)) = (d0, g0)"
    by (cases "case deck s of None \<Rightarrow> Deck sh (rng s) 6 | Some d \<Rightarrow> (d, rng s)")
  let ?s0 = "s\<lparr>dealer_hand := Some Hand, player_hands := [], deck := Some d0, rng := g0\<rparr>"
  from assms(1) have m: "\<not> \<not> (\<exists>b \<in> set (map snd bets). b \<ge> MIN_BET)" by simp
  have unfold: "deal_cards sh bets s =
      (case place_bets bets ?s0 of
         Inl e \<Rightarrow> Inl e
       | Inr s1 \<Rightarrow>
           (case deal_round sh s1 of
              Inl e \<Rightarrow> Inl e
            | Inr s2 \<Rightarrow>
                (case deal_round sh s2 of
                   Inl e \<Rightarrow> Inl e
                 | Inr s3 \<Rightarrow>
                     Inr (s3\<lparr>betting_phase := False, round_active := True,
                              dealer_turn := False, round_over := False,
                              payouts_applied := False,
                              current_player_idx := 0,
                              current_hand_idx := 0\<rparr>))))"
    unfolding deal_cards_def using m dg by (simp only: if_False prod.case)
  from assms(2) obtain s1 where s1: "place_bets bets ?s0 = Inr s1"
    unfolding unfold by (cases "place_bets bets ?s0") simp_all
  from assms(2) obtain s2 where s2: "deal_round sh s1 = Inr s2"
    unfolding unfold s1 by (cases "deal_round sh s1") simp_all
  from assms(2) obtain s3 where s3: "deal_round sh s2 = Inr s3"
    unfolding unfold s1 by (cases "deal_round sh s2") (simp_all add: s2)
  from assms(2) show ?thesis unfolding unfold by (auto simp add: s1 s2 s3)
qed

text \<open>
  C7, as stated, fails on the turn pointer. The example round ends with the pointer on
  the second hand of the first player, (0, 1); both next-round handlers leave it there.
\<close>

theorem C7_next_round_counterexample:
  "reveal_button ex_shuffle ex_aces_stood = Inr ex_aces_settled
   \<and> (current_player_idx (next_round_no_save ex_aces_settled),
       current_hand_idx (next_round_no_save ex_aces_settled)) \<noteq> (0, 0)
   \<and> save_and_next_round None ex_aces_settled = Inr (next_round_no_save ex_aces_settled)"
proof -
  have "current_hand_idx (next_round_no_save ex_aces_settled) = 1"
    by (simp add: next_round_no_save_def ex_defs ex_aces_defs)
  moreover have "save_and_next_round None ex_aces_settled = Inr (next_round_no_save ex_aces_settled)"
    by (simp add: save_and_next_round_def save_round_to_supabase_def next_round_no_save_def)
  ultimately show ?thesis using ex_aces_reveal_button by simp
qed

text \<open>
  C7, amended. The next-round transition, with or without saving, clears the dealer's
  hand and all player hands, sets the betting phase, resets \<open>round_active\<close>,
  \<open>round_over\<close>, \<open>dealer_turn\<close> and \<open>payouts_applied\<close>, and leaves every bankroll,
  the deck and the turn pointer as they are. The pointer is set to (0, 0) by the Deal
  Cards handler of the round that follows, when it deals.
\<close>

theorem C7_next_round:
  "dealer_hand (next_round_no_save s) = None
   \<and> player_hands (next_round_no_save s) = []
   \<and> betting_phase (next_round_no_save s)
   \<and> \<not> round_active (next_round_no_save s)
   \<and> \<not> round_over (next_round_no_save s)
   \<and> \<not> dealer_turn (next_round_no_save s)
   \<and> \<not> payouts_applied (next_round_no_save s)
   \<and> bankrolls (next_round_no_save s) = bankrolls s
   \<and> deck (next_round_no_save s) = deck s
   \<and> current_player_idx (next_round_no_save s) = current_player_idx s
   \<and> current_hand_idx (next_round_no_save s) = current_hand_idx s
   \<and> (\<forall>t. save_and_next_round client s = Inr t \<longrightarrow> t = next_round_no_save s)
   \<and> (\<forall>u. deal_cards sh bets (next_round_no_save s) = Inr u
            \<and> (\<exists>b \<in> set (map snd bets). b \<ge> MIN_BET) \<longrightarrow>
          current_player_idx u = 0 \<and> current_hand_idx u = 0)"
proof -
  have fields: "dealer_hand (next_round_no_save s) = None
   \<and> player_hands (next_round_no_save s) = []
   \<and> betting_phase (next_round_no_save s)
   \<and> \<not> round_active (next_round_no_save s)
   \<and> \<not> round_over (next_round_no_save s)
   \<and> \<not> dealer_turn (next_round_no_save s)
   \<and> \<not> payouts_applied (next_round_no_save s)
   \<and> bankrolls (next_round_no_save s) = bankrolls s
   \<and> deck (next_round_no_save s) = deck s
   \<and> current_player_idx (next_round_no_save s) = current_player_idx s
   \<and> current_hand_idx (next_round_no_save s) = current_hand_idx s"
    by (simp add: next_round_no_save_def)
  have save: "\<forall>t. save_and_next_round client s = Inr t \<longrightarrow> t = next_round_no_save s"
    by (auto simp: save_and_next_round_def next_round_no_save_def split: sum.splits)
  have deal: "\<forall>u. deal_cards sh bets (next_round_no_save s) = Inr u
            \<and> (\<exists>b \<in> set (map snd bets). b \<ge> MIN_BET) \<longrightarrow>
          current_player_idx u = 0 \<and> current_hand_idx u = 0"
    using deal_cards_pointer [of bets sh "next_round_no_save s"] by blast
  from fields save deal show ?thesis by (elim conjE) (intro conjI, assumption+)
qed

theorem C7_next_round_witness:
  "save_and_next_round None ex_aces_settled = Inr (next_round_no_save ex_aces_settled)
   \<and> current_hand_idx (next_round_no_save ex_aces_settled) = 1
   \<and> bankrolls (next_round_no_save ex_aces_settled) ''Player 1'' = Some 1050
   \<and> deal_cards ex_shuffle ex_bets (next_round_no_save ex_aces_settled) = Inr ex_aces_next
   \<and> current_player_idx ex_aces_next = 0 \<and> current_hand_idx ex_aces_next = 0"
proof -
  have s: "save_and_next_round None ex_aces_settled = Inr (next_round_no_save ex_aces_settled)"
    by (simp add: save_and_next_round_def save_round_to_supabase_def next_round_no_save_def)
  have i: "current_hand_idx (next_round_no_save ex_aces_settled) = 1"
    by (simp add: next_round_no_save_def ex_defs ex_aces_defs)
  have b: "bankrolls (next_round_no_save ex_aces_settled) ''Player 1'' = Some 1050"
    by (simp add: next_round_no_save_def ex_defs ex_aces_defs)
  have m: "\<exists>b \<in> set (map snd ex_bets). b \<ge> MIN_BET" by (simp add: ex_defs)
  have all: "\<forall>u. deal_cards ex_shuffle ex_bets (next_round_no_save ex_aces_settled) = Inr u
            \<and> (\<exists>b \<in> set (map snd ex_bets). b \<ge> MIN_BET) \<longrightarrow>
          current_player_idx u = 0 \<and> current_hand_idx u = 0"
    using C7_next_round [of ex_aces_settled None ex_shuffle ex_bets]
    by (elim conjE) assumption
  from all ex_aces_next_round m
  have p: "current_player_idx ex_aces_next = 0 \<and> current_hand_idx ex_aces_next = 0"
    by (elim allE [of _ ex_aces_next] impE) (intro conjI, assumption+)
  from s i b ex_aces_next_round p show ?thesis by (intro conjI) (elim conjE, assumption)+
qed

section \<open>The control panel and the actions\<close>

lemma currentD:
  assumes "current s = Some (name, hl, h)"
  shows "map_of (player_hands s) name = Some hl"
    and "nat (current_hand_idx s) < length hl"
    and "h = hl ! nat (current_hand_idx s)"
    and "0 \<le> current_hand_idx s"
  using assms by (auto simp: current_def Let_def split: if_splits option.splits)

lemma controlsI:
  "current s = Some (name, hl, h) \<Longrightarrow> bankrolls s name = Some bk \<Longrightarrow>
   controls s = Inr (Some (name, hl, h, bk))"
  by (simp add: controls_def)

lemma draw_player_hands:
  "draw sh s = Inr (c, s1) \<Longrightarrow> player_hands s1 = player_hands s \<and> bankrolls s1 = bankrolls s"
  by (auto dest: draw_frame)

lemma map_of_set_hands [simp]:
  "map_of (player_hands (set_hands name hl s)) name = Some hl"
  by (simp add: set_hands_def update_conv')

lemma keys_set_hands:
  "map_of (player_hands s) name = Some hl0 \<Longrightarrow>
   map fst (player_hands (set_hands name hl s)) = map fst (player_hands s)"
proof -
  assume "map_of (player_hands s) name = Some hl0"
  then have "name \<in> fst ` set (player_hands s)" by (rule map_of_SomeD [THEN imageI, of _ _ _ fst, simplified])
  then show ?thesis by (simp add: set_hands_def update_keys)
qed

lemma fields_set_hands [simp]:
  "bankrolls (set_hands name hl s) = bankrolls s"
  "deck (set_hands name hl s) = deck s"
  "rng (set_hands name hl s) = rng s"
  "dealer_hand (set_hands name hl s) = dealer_hand s"
  "current_player_idx (set_hands name hl s) = current_player_idx s"
  "current_hand_idx (set_hands name hl s) = current_hand_idx s"
  by (simp_all add: set_hands_def)

lemma is_standing_add_card_21: "get_value (add_card h c) = 21 \<Longrightarrow> is_standing (add_card h c)"
proof -
  assume v: "get_value (add_card h c) = 21"
  have "get_value (update_states (h\<lparr>cards := cards h @ [c]\<rparr>)) = get_value (add_card h c)"
    by (rule get_value_cards_cong) simp
  with v show ?thesis by (simp add: add_card_def Let_def)
qed

lemma hand_double_props:
  "cards (hand_double h c) = cards h @ [c]"
  "bet (hand_double h c) = bet h * 2"
  "is_standing (hand_double h c)"
  "doubled (hand_double h c)"
  "is_bust (hand_double h c) = (get_value (hand_double h c) > 21)"
proof -
  show "cards (hand_double h c) = cards h @ [c]" by (simp add: hand_double_def)
  show "bet (hand_double h c) = bet h * 2" by (simp add: hand_double_def)
  show "is_standing (hand_double h c)" by (simp add: hand_double_def)
  show "doubled (hand_double h c)" by (simp add: hand_double_def)
  have "get_value (hand_double h c) = get_value (add_card (h\<lparr>bet := bet h * 2, doubled := True\<rparr>) c)"
    by (rule get_value_cards_cong) (simp add: hand_double_def)
  with flags_in_sync_add_card [of "h\<lparr>bet := bet h * 2, doubled := True\<rparr>" c]
  show "is_bust (hand_double h c) = (get_value (hand_double h c) > 21)"
    by (simp add: flags_in_sync_def hand_double_def)
qed

lemma action_double_result:
  assumes "controls s = Inr (Some (name, hl, h, bk))"
    and "playable h" and "can_double h" and "bet h \<le> bk"
    and "draw sh s = Inr (c, s1)"
  shows "action_double sh s =
     Inr (set_hands name (hl[nat (current_hand_idx s) := hand_double h c])
            (s1\<lparr>bankrolls := (bankrolls s)(name \<mapsto> bk - bet h)\<rparr>))"
  using assms by (simp add: action_double_def)


text \<open>
  C4. When the turn pointer selects a hand that is playable, has exactly two cards, is
  not doubled, and the player's bankroll covers its bet, the Double handler takes the
  bet from the bankroll once more, doubles the hand's bet, draws one card from the deck
  into the hand (three cards then) and sets standing, also when the hand is bust by the
  draw. In the example round: 1000 before the bet, 900 after it, 800 after the double
  on a bet of 200; the player's 20 against the dealer's 19 is paid 400, and the
  bankroll ends at 1200.
\<close>

theorem C4_double:
  assumes "current s = Some (name, hl, h)" and "bankrolls s name = Some bk"
    and "playable h" and "length (cards h) = 2" and "\<not> doubled h" and "bet h \<le> bk"
    and "is_shuffle sh" and "deck s = Some d" and "0 < num_decks d"
  shows "(\<exists>c s1 s' h'.
            draw sh s = Inr (c, s1) \<and> action_double sh s = Inr s'
            \<and> deck s' = deck s1 \<and> rng s' = rng s1
            \<and> bankrolls s' = (bankrolls s)(name \<mapsto> bk - bet h)
            \<and> map fst (player_hands s') = map fst (player_hands s)
            \<and> map_of (player_hands s') name = Some (hl[nat (current_hand_idx s) := h'])
            \<and> cards h' = cards h @ [c] \<and> length (cards h') = 3
            \<and> bet h' = bet h * 2 \<and> doubled h' \<and> is_standing h'
            \<and> is_bust h' = (get_value h' > 21))
         \<and> (bankrolls ex_table ''Player 1'' = Some 1000
            \<and> deal_cards ex_shuffle [(''Player 1'', 100)] ex_table = Inr ex_dealt
            \<and> bankrolls ex_dealt ''Player 1'' = Some 900
            \<and> action_double ex_shuffle ex_dealt = Inr ex_doubled
            \<and> bankrolls ex_doubled ''Player 1'' = Some 800
            \<and> player_hands ex_doubled = [(''Player 1'', [ex_hand_20])]
            \<and> bet ex_hand_20 = 200 \<and> get_value ex_hand_20 = 20
            \<and> dealer_hand ex_doubled = Some ex_dealer_19 \<and> get_value ex_dealer_19 = 19
            \<and> payout ex_hand_20 19 False False = Inr 400
            \<and> reveal_button ex_shuffle ex_doubled = Inr ex_settled
            \<and> bankrolls ex_settled ''Player 1'' = Some 1200)"
proof -
  from assms(8,9) have ok: "deck_ok s" by (simp add: deck_ok_def)
  from draw_ok [OF assms(7) ok] obtain c s1 where dr: "draw sh s = Inr (c, s1)" by blast
  have ctl: "controls s = Inr (Some (name, hl, h, bk))"
    using assms(1,2) by (rule controlsI)
  have cd: "can_double h" using assms(4,5) by (simp add: can_double_def)
  let ?h' = "hand_double h c"
  let ?s' = "set_hands name (hl[nat (current_hand_idx s) := ?h'])
               (s1\<lparr>bankrolls := (bankrolls s)(name \<mapsto> bk - bet h)\<rparr>)"
  have run: "action_double sh s = Inr ?s'"
    using ctl assms(3) cd assms(6) dr by (rule action_double_result)
  have ph: "player_hands s1 = player_hands s" using draw_player_hands [OF dr] by simp
  have keys: "map fst (player_hands ?s') = map fst (player_hands s)"
    using keys_set_hands [of "s1\<lparr>bankrolls := (bankrolls s)(name \<mapsto> bk - bet h)\<rparr>" name hl]
      currentD(1) [OF assms(1)] ph by simp
  have general: "\<exists>c s1 s' h'.
            draw sh s = Inr (c, s1) \<and> action_double sh s = Inr s'
            \<and> deck s' = deck s1 \<and> rng s' = rng s1
            \<and> bankrolls s' = (bankrolls s)(name \<mapsto> bk - bet h)
            \<and> map fst (player_hands s') = map fst (player_hands s)
            \<and> map_of (player_hands s') name = Some (hl[nat (current_hand_idx s) := h'])
            \<and> cards h' = cards h @ [c] \<and> length (cards h') = 3
            \<and> bet h' = bet h * 2 \<and> doubled h' \<and> is_standing h'
            \<and> is_bust h' = (get_value h' > 21)"
    using dr run keys hand_double_props [of h c] assms(4)
    by (intro exI [of _ c] exI [of _ s1] exI [of _ ?s'] exI [of _ ?h']) simp
  have scenario: "bankrolls ex_table ''Player 1'' = Some 1000
            \<and> deal_cards ex_shuffle [(''Player 1'', 100)] ex_table = Inr ex_dealt
            \<and> bankrolls ex_dealt ''Player 1'' = Some 900
            \<and> action_double ex_shuffle ex_dealt = Inr ex_doubled
            \<and> bankrolls ex_doubled ''Player 1'' = Some 800
            \<and> player_hands ex_doubled = [(''Player 1'', [ex_hand_20])]
            \<and> bet ex_hand_20 = 200 \<and> get_value ex_hand_20 = 20
            \<and> dealer_hand ex_doubled = Some ex_dealer_19 \<and> get_value ex_dealer_19 = 19
            \<and> payout ex_hand_20 19 False False = Inr 400
            \<and> reveal_button ex_shuffle ex_doubled = Inr ex_settled
            \<and> bankrolls ex_settled ''Player 1'' = Some 1200"
  proof -
    have "deal_cards ex_shuffle [(''Player 1'', 100)] ex_table = Inr ex_dealt"
      using ex_deal_cards by (simp add: ex_bets_def)
    moreover have "bankrolls ex_table ''Player 1'' = Some 1000"
      "bankrolls ex_dealt ''Player 1'' = Some 900"
      "bankrolls ex_doubled ''Player 1'' = Some 800"
      "bankrolls ex_settled ''Player 1'' = Some 1200"
      "player_hands ex_doubled = [(''Player 1'', [ex_hand_20])]"
      "dealer_hand ex_doubled = Some ex_dealer_19"
      by (simp_all add: ex_defs)
    moreover have "bet ex_hand_20 = 200" "get_value ex_hand_20 = 20"
      "get_value ex_dealer_19 = 19" "payout ex_hand_20 19 False False = Inr 400"
      by (simp_all add: ex_defs payout_def get_value_def)
    ultimately show ?thesis using ex_action_double ex_reveal_button by (intro conjI)
  qed
  from general scenario show ?thesis by (rule conjI)
qed

theorem C4_double_witness:
  "current ex_dealt = Some (''Player 1'', [ex_hand_11], ex_hand_11)
   \<and> bankrolls ex_dealt ''Player 1'' = Some 900
   \<and> playable ex_hand_11 \<and> length (cards ex_hand_11) = 2 \<and> \<not> doubled ex_hand_11
   \<and> bet ex_hand_11 \<le> 900 \<and> is_shuffle ex_shuffle
   \<and> (\<exists>c s1 s' h'.
         draw ex_shuffle ex_dealt = Inr (c, s1) \<and> action_double ex_shuffle ex_dealt = Inr s'
         \<and> deck s' = deck s1 \<and> rng s' = rng s1
         \<and> bankrolls s' = (bankrolls ex_dealt)(''Player 1'' \<mapsto> 900 - bet ex_hand_11)
         \<and> map fst (player_hands s') = map fst (player_hands ex_dealt)
         \<and> map_of (player_hands s') ''Player 1'' =
             Some ([ex_hand_11][nat (current_hand_idx ex_dealt) := h'])
         \<and> cards h' = cards ex_hand_11 @ [c] \<and> length (cards h') = 3
         \<and> bet h' = bet ex_hand_11 * 2 \<and> doubled h' \<and> is_standing h'
         \<and> is_bust h' = (get_value h' > 21))"
proof -
  have h1: "current ex_dealt = Some (''Player 1'', [ex_hand_11], ex_hand_11)"
    by (simp add: current_def ex_defs)
  have h2: "bankrolls ex_dealt ''Player 1'' = Some 900" by (simp add: ex_defs)
  have h3: "playable ex_hand_11" by (simp add: playable_def ex_defs)
  have h4: "length (cards ex_hand_11) = 2" by (simp add: ex_defs)
  have h5: "\<not> doubled ex_hand_11" by (simp add: ex_defs)
  have h6: "bet ex_hand_11 \<le> 900" by (simp add: ex_defs)
  have h7: "is_shuffle ex_shuffle" by (simp add: is_shuffle_def ex_shuffle_def)
  have h8: "deck ex_dealt = Some \<lparr>num_decks = 6, deck_cards = ex_filler @ [(R9, Clubs)]\<rparr>"
    by (simp add: ex_dealt_def)
  have h9: "0 < num_decks \<lparr>num_decks = 6, deck_cards = ex_filler @ [(R9, Clubs)]\<rparr>"
    by simp
  note inst = C4_double [OF h1 h2 h3 h4 h5 h6 h7 h8 h9]
  from inst have part: "\<exists>c s1 s' h'.
         draw ex_shuffle ex_dealt = Inr (c, s1) \<and> action_double ex_shuffle ex_dealt = Inr s'
         \<and> deck s' = deck s1 \<and> rng s' = rng s1
         \<and> bankrolls s' = (bankrolls ex_dealt)(''Player 1'' \<mapsto> 900 - bet ex_hand_11)
         \<and> map fst (player_hands s') = map fst (player_hands ex_dealt)
         \<and> map_of (player_hands s') ''Player 1'' =
             Some ([ex_hand_11][nat (current_hand_idx ex_dealt) := h'])
         \<and> cards h' = cards ex_hand_11 @ [c] \<and> length (cards h') = 3
         \<and> bet h' = bet ex_hand_11 * 2 \<and> doubled h' \<and> is_standing h'
         \<and> is_bust h' = (get_value h' > 21)"
    by (rule conjunct1)
  from h1 h2 h3 h4 h5 h6 h7 part show ?thesis by (intro conjI)
qed

section \<open>The Split handler\<close>

lemma list_insert_update:
  assumes "i < length hl"
  shows "list_insert (i + 1) y (hl[i := x]) = take i hl @ [x, y] @ drop (Suc i) hl"
proof -
  have "take (Suc i) (hl[i := x]) = take i (hl[i := x]) @ [(hl[i := x]) ! i]"
    using assms by (simp add: take_Suc_conv_app_nth)
  also have "\<dots> = take i hl @ [x]" using assms by simp
  finally have t: "take (Suc i) (hl[i := x]) = take i hl @ [x]" .
  have d: "drop (Suc i) (hl[i := x]) = drop (Suc i) hl" by simp
  show ?thesis by (simp add: list_insert_def t d)
qed

lemma hand_split_keep_props:
  assumes "length (cards h) = 2"
  shows "cards (hand_split_keep h c) = [cards h ! 0, c]"
    and "bet (hand_split_keep h c) = bet h"
proof -
  from assms obtain a b where ab: "cards h = [a, b]"
    by (cases "cards h"; cases "tl (cards h)") auto
  then show "cards (hand_split_keep h c) = [cards h ! 0, c]"
    by (simp add: hand_split_keep_def)
  show "bet (hand_split_keep h c) = bet h" by (simp add: hand_split_keep_def)
qed

lemma hand_split_new_props:
  assumes "length (cards h) = 2"
  shows "cards (hand_split_new h c) = [cards h ! 1, c]"
    and "bet (hand_split_new h c) = bet h"
proof -
  from assms obtain a b where ab: "cards h = [a, b]"
    by (cases "cards h"; cases "tl (cards h)") auto
  then show "cards (hand_split_new h c) = [cards h ! 1, c]"
    by (simp add: hand_split_new_def Hand_def)
  show "bet (hand_split_new h c) = bet h" by (simp add: hand_split_new_def)
qed

lemma action_split_result:
  assumes "controls s = Inr (Some (name, hl, h, bk))"
    and "playable h" and "can_split h" and "bet h \<le> bk" and "length hl < 4"
    and "draw sh s = Inr (c1, s1)" and "draw sh s1 = Inr (c2, s2)"
  shows "action_split sh s =
     Inr (set_hands name
            (list_insert (nat (current_hand_idx s) + 1) (hand_split_new h c2)
               (hl[nat (current_hand_idx s) := hand_split_keep h c1]))
            (s2\<lparr>bankrolls := (bankrolls s)(name \<mapsto> bk - bet h)\<rparr>))"
  using assms by (simp add: action_split_def Let_def hand_split_new_def)

text \<open>What the split leaves behind, shared by the statements about it.\<close>

lemma action_split_hands:
  assumes "current s = Some (name, hl, h)" and "bankrolls s name = Some bk"
    and "playable h" and "length (cards h) = 2"
    and "fst (cards h ! 0) = fst (cards h ! 1)" and "bet h \<le> bk" and "length hl < 4"
    and "is_shuffle sh" and "deck s = Some d" and "0 < num_decks d"
  shows "\<exists>c1 s1 c2 s2 s'.
           draw sh s = Inr (c1, s1) \<and> draw sh s1 = Inr (c2, s2)
           \<and> action_split sh s = Inr s'
           \<and> deck s' = deck s2 \<and> rng s' = rng s2
           \<and> bankrolls s' = (bankrolls s)(name \<mapsto> bk - bet h)
           \<and> player_hands s' =
               AList.update name
                 (take (nat (current_hand_idx s)) hl
                  @ [hand_split_keep h c1, hand_split_new h c2]
                  @ drop (Suc (nat (current_hand_idx s))) hl)
                 (player_hands s)"
proof -
  from assms(9,10) have ok: "deck_ok s" by (simp add: deck_ok_def)
  from draw_ok [OF assms(8) ok] obtain c1 d1 g1
    where dr1: "draw sh s = Inr (c1, s\<lparr>deck := Some d1, rng := g1\<rparr>)"
      and nd1: "0 < num_decks d1" by blast
  let ?s1 = "s\<lparr>deck := Some d1, rng := g1\<rparr>"
  have ok1: "deck_ok ?s1" using nd1 by (simp add: deck_ok_def)
  from draw_ok [OF assms(8) ok1] obtain c2 d2 g2
    where dr2: "draw sh ?s1 = Inr (c2, ?s1\<lparr>deck := Some d2, rng := g2\<rparr>)" by blast
  let ?s2 = "?s1\<lparr>deck := Some d2, rng := g2\<rparr>"
  let ?i = "nat (current_hand_idx s)"
  have ctl: "controls s = Inr (Some (name, hl, h, bk))"
    using assms(1,2) by (rule controlsI)
  have cs: "can_split h" using assms(4,5) by (simp add: can_split_def)
  have ins: "list_insert (?i + 1) (hand_split_new h c2) (hl[?i := hand_split_keep h c1]) =
      take ?i hl @ [hand_split_keep h c1, hand_split_new h c2] @ drop (Suc ?i) hl"
    using currentD(2) [OF assms(1)] by (rule list_insert_update)
  let ?s' = "set_hands name
            (take ?i hl @ [hand_split_keep h c1, hand_split_new h c2] @ drop (Suc ?i) hl)
            (?s2\<lparr>bankrolls := (bankrolls s)(name \<mapsto> bk - bet h)\<rparr>)"
  have run: "action_split sh s = Inr ?s'"
    using action_split_result [OF ctl assms(3) cs assms(6,7) dr1 dr2] by (simp only: ins)
  show ?thesis
    using dr1 dr2 run
    by (intro exI [of _ c1] exI [of _ ?s1] exI [of _ c2] exI [of _ ?s2] exI [of _ ?s'])
       (simp add: set_hands_def)
qed

text \<open>
  C5. When the turn pointer selects a hand that is playable and has exactly two cards
  of equal rank, the player's bankroll covers its bet and the player holds fewer than
  four hands, the Split handler draws two cards from the deck, leaves the first card of
  the hand and the first card drawn in the current hand, puts a new hand with the
  second card, the second card drawn and the same bet right after it, and takes the bet
  from the bankroll once more. The other hands and the other players are as before; the
  player has one hand more, at most four.
\<close>

theorem C5_split:
  assumes "current s = Some (name, hl, h)" and "bankrolls s name = Some bk"
    and "playable h" and "length (cards h) = 2"
    and "fst (cards h ! 0) = fst (cards h ! 1)" and "bet h \<le> bk" and "length hl < 4"
    and "is_shuffle sh" and "deck s = Some d" and "0 < num_decks d"
  shows "\<exists>c1 s1 c2 s2 s' kept new hl'.
           draw sh s = Inr (c1, s1) \<and> draw sh s1 = Inr (c2, s2)
           \<and> action_split sh s = Inr s'
           \<and> deck s' = deck s2 \<and> rng s' = rng s2
           \<and> bankrolls s' = (bankrolls s)(name \<mapsto> bk - bet h)
           \<and> map fst (player_hands s') = map fst (player_hands s)
           \<and> (\<forall>other. other \<noteq> name \<longrightarrow>
                 map_of (player_hands s') other = map_of (player_hands s) other)
           \<and> map_of (player_hands s') name = Some hl'
           \<and> hl' = take (nat (current_hand_idx s)) hl @ [kept, new]
                     @ drop (Suc (nat (current_hand_idx s))) hl
           \<and> cards kept = [cards h ! 0, c1] \<and> bet kept = bet h
           \<and> cards new = [cards h ! 1, c2] \<and> bet new = bet h
           \<and> length hl' = length hl + 1 \<and> length hl' \<le> 4"
proof -
  let ?i = "nat (current_hand_idx s)"
  from action_split_hands [OF assms]
  obtain c1 s1 c2 s2 s' where dr1: "draw sh s = Inr (c1, s1)"
    and dr2: "draw sh s1 = Inr (c2, s2)"
    and run: "action_split sh s = Inr s'"
    and dk: "deck s' = deck s2" "rng s' = rng s2"
    and bks: "bankrolls s' = (bankrolls s)(name \<mapsto> bk - bet h)"
    and ph: "player_hands s' =
               AList.update name
                 (take ?i hl @ [hand_split_keep h c1, hand_split_new h c2] @ drop (Suc ?i) hl)
                 (player_hands s)"
    by blast
  let ?kept = "hand_split_keep h c1" and ?new = "hand_split_new h c2"
  let ?hl' = "take ?i hl @ [?kept, ?new] @ drop (Suc ?i) hl"
  from currentD(1) [OF assms(1)] have "name \<in> fst ` set (player_hands s)"
    by (metis map_of_eq_None_iff option.distinct(1))
  then have keys: "map fst (player_hands s') = map fst (player_hands s)"
    by (simp add: ph update_keys)
  have others: "\<forall>other. other \<noteq> name \<longrightarrow>
      map_of (player_hands s') other = map_of (player_hands s) other"
    by (simp add: ph update_conv')
  have mine: "map_of (player_hands s') name = Some ?hl'"
    by (simp add: ph update_conv')
  have len: "length ?hl' = length hl + 1"
    using currentD(2) [OF assms(1)] by simp
  with assms(7) have cap: "length ?hl' \<le> 4" by simp
  note k = hand_split_keep_props [OF assms(4), of c1]
  note n = hand_split_new_props [OF assms(4), of c2]
  show ?thesis
    using dr1 dr2 run dk bks keys others mine len cap k n
    by (intro exI [of _ c1] exI [of _ s1] exI [of _ c2] exI [of _ s2] exI [of _ s']
          exI [of _ ?kept] exI [of _ ?new] exI [of _ ?hl'])
       (intro conjI refl, assumption+)
qed


theorem C5_split_witness:
  "current ex_aces_dealt = Some (''Player 1'', [ex_hand_aces], ex_hand_aces)
   \<and> bankrolls ex_aces_dealt ''Player 1'' = Some 900
   \<and> playable ex_hand_aces \<and> length (cards ex_hand_aces) = 2
   \<and> fst (cards ex_hand_aces ! 0) = fst (cards ex_hand_aces ! 1)
   \<and> bet ex_hand_aces \<le> 900 \<and> length [ex_hand_aces] < 4 \<and> is_shuffle ex_shuffle
   \<and> action_split ex_shuffle ex_aces_dealt = Inr ex_aces_split
   \<and> player_hands ex_aces_split = [(''Player 1'', [ex_hand_ace_king, ex_hand_ace_five])]
   \<and> bankrolls ex_aces_split ''Player 1'' = Some 800
   \<and> (\<exists>c1 s1 c2 s2 s' kept new hl'.
           draw ex_shuffle ex_aces_dealt = Inr (c1, s1) \<and> draw ex_shuffle s1 = Inr (c2, s2)
           \<and> action_split ex_shuffle ex_aces_dealt = Inr s'
           \<and> deck s' = deck s2 \<and> rng s' = rng s2
           \<and> bankrolls s' = (bankrolls ex_aces_dealt)(''Player 1'' \<mapsto> 900 - bet ex_hand_aces)
           \<and> map fst (player_hands s') = map fst (player_hands ex_aces_dealt)
           \<and> map_of (player_hands s') ''Player 1'' = Some hl'
           \<and> hl' = take (nat (current_hand_idx ex_aces_dealt)) [ex_hand_aces] @ [kept, new]
                     @ drop (Suc (nat (current_hand_idx ex_aces_dealt))) [ex_hand_aces]
           \<and> cards kept = [cards ex_hand_aces ! 0, c1] \<and> bet kept = bet ex_hand_aces
           \<and> cards new = [cards ex_hand_aces ! 1, c2] \<and> bet new = bet ex_hand_aces
           \<and> length hl' = length [ex_hand_aces] + 1 \<and> length hl' \<le> 4)"
proof -
  have h1: "current ex_aces_dealt = Some (''Player 1'', [ex_hand_aces], ex_hand_aces)"
    by (simp add: current_def ex_defs ex_aces_defs)
  have h2: "bankrolls ex_aces_dealt ''Player 1'' = Some 900" by (simp add: ex_aces_defs)
  have h3: "playable ex_hand_aces" by (simp add: playable_def ex_aces_defs)
  have h4: "length (cards ex_hand_aces) = 2" by (simp add: ex_aces_defs)
  have h5: "fst (cards ex_hand_aces ! 0) = fst (cards ex_hand_aces ! 1)"
    by (simp add: ex_aces_defs)
  have h6: "bet ex_hand_aces \<le> 900" by (simp add: ex_aces_defs)
  have h7: "length [ex_hand_aces] < 4" by simp
  have h8: "is_shuffle ex_shuffle" by (simp add: is_shuffle_def ex_shuffle_def)
  have h9: "deck ex_aces_dealt =
      Some \<lparr>num_decks = 6,
            deck_cards = ex_filler @ ex_extra @ [(R5, Diamonds), (King, Diamonds)]\<rparr>"
    by (simp add: ex_aces_dealt_def)
  have h10: "0 < num_decks \<lparr>num_decks = 6,
      deck_cards = ex_filler @ ex_extra @ [(R5, Diamonds), (King, Diamonds)]\<rparr>"
    by simp
  have r1: "player_hands ex_aces_split = [(''Player 1'', [ex_hand_ace_king, ex_hand_ace_five])]"
    by (simp add: ex_aces_split_def)
  have r2: "bankrolls ex_aces_split ''Player 1'' = Some 800" by (simp add: ex_aces_split_def)
  from C5_split [OF h1 h2 h3 h4 h5 h6 h7 h8 h9 h10]
  have inst: "\<exists>c1 s1 c2 s2 s' kept new hl'.
           draw ex_shuffle ex_aces_dealt = Inr (c1, s1) \<and> draw ex_shuffle s1 = Inr (c2, s2)
           \<and> action_split ex_shuffle ex_aces_dealt = Inr s'
           \<and> deck s' = deck s2 \<and> rng s' = rng s2
           \<and> bankrolls s' = (bankrolls ex_aces_dealt)(''Player 1'' \<mapsto> 900 - bet ex_hand_aces)
           \<and> map fst (player_hands s') = map fst (player_hands ex_aces_dealt)
           \<and> map_of (player_hands s') ''Player 1'' = Some hl'
           \<and> hl' = take (nat (current_hand_idx ex_aces_dealt)) [ex_hand_aces] @ [kept, new]
                     @ drop (Suc (nat (current_hand_idx ex_aces_dealt))) [ex_hand_aces]
           \<and> cards kept = [cards ex_hand_aces ! 0, c1] \<and> bet kept = bet ex_hand_aces
           \<and> cards new = [cards ex_hand_aces ! 1, c2] \<and> bet new = bet ex_hand_aces
           \<and> length hl' = length [ex_hand_aces] + 1 \<and> length hl' \<le> 4"
    by (elim exE conjE) (intro exI conjI, assumption+)
  from h1 h2 h3 h4 h5 h6 h7 h8 ex_aces_action_split r1 r2 inst show ?thesis
    by (intro conjI)
qed

lemma split_hand_21:
  assumes "length (cards x) = 1" and "get_value (add_card x c) = 21"
  shows "is_blackjack (add_card x c) \<and> \<not> is_bust (add_card x c) \<and> is_standing (add_card x c)
         \<and> payout (add_card x c) dealer_value dealer_bust False = int_bet_times_2_5 (bet x)"
proof -
  from flags_in_sync_add_card [of x c] assms(1,2)
  have bj: "is_blackjack (add_card x c)" and nb: "\<not> is_bust (add_card x c)"
    by (simp_all add: flags_in_sync_def)
  have st: "is_standing (add_card x c)" using assms(2) by (rule is_standing_add_card_21)
  have "payout (add_card x c) dealer_value dealer_bust False = int_bet_times_2_5 (bet x)"
    using bj nb by (simp add: payout_def Let_def)
  with bj nb st show ?thesis by simp
qed

lemmas ex_large_defs = ex_hand_aces_large_def ex_hand_ace_king_large_def
  ex_hand_ace_five_large_def ex_aces_dealt_large_def ex_aces_split_large_def

lemma ex_large_action_split:
  "action_split ex_shuffle ex_aces_dealt_large = Inr ex_aces_split_large"
  by (simp add: action_split_def controls_def current_def set_hands_def draw_def deal_def
      list_insert_def ex_defs ex_aces_defs ex_large_defs hand_defs)

text \<open>
  C10, as stated, fails on large bets: split Aces on a bet of 1801439850948199, an Ace
  and a King in the first hand, flagged blackjack and paid 4503599627370498 against a
  dealer's 19, where the floor of 2.5 times the bet is 4503599627370497.
\<close>

theorem C10_split_blackjack_counterexample:
  "action_split ex_shuffle ex_aces_dealt_large = Inr ex_aces_split_large
   \<and> map_of (player_hands ex_aces_split_large) ''Player 1'' =
       Some [ex_hand_ace_king_large, ex_hand_ace_five_large]
   \<and> cards ex_hand_ace_king_large = [(Ace, Spades), (King, Diamonds)]
   \<and> get_value ex_hand_ace_king_large = 21 \<and> is_blackjack ex_hand_ace_king_large
   \<and> payout ex_hand_ace_king_large 19 False False = Inr 4503599627370498
   \<and> \<lfloor>real_of_int (bet ex_hand_ace_king_large) * 2.5\<rfloor> = 4503599627370497"
proof -
  have m: "map_of (player_hands ex_aces_split_large) ''Player 1'' =
       Some [ex_hand_ace_king_large, ex_hand_ace_five_large]"
    by (simp add: ex_aces_split_large_def)
  have c: "cards ex_hand_ace_king_large = [(Ace, Spades), (King, Diamonds)]"
    by (simp add: ex_large_defs ex_aces_defs)
  have v: "get_value ex_hand_ace_king_large = 21"
    by (simp add: ex_large_defs ex_aces_defs get_value_def)
  have bj: "is_blackjack ex_hand_ace_king_large" and nb: "\<not> is_bust ex_hand_ace_king_large"
    and b: "bet ex_hand_ace_king_large = 1801439850948199"
    by (simp_all add: ex_large_defs ex_aces_defs)
  have p: "payout ex_hand_ace_king_large 19 False False = Inr 4503599627370498"
    using bj nb by (simp add: payout_def Let_def b int_bet_times_2_5_large)
  have fl: "\<lfloor>real_of_int (bet ex_hand_ace_king_large) * 2.5\<rfloor> = 4503599627370497"
    by (simp add: b)
  from ex_large_action_split m c v bj p fl show ?thesis by (intro conjI)
qed

text \<open>
  C10, amended. After a split both resulting hands have two cards and the bet of the
  hand that was split. One whose value is exactly 21 has its blackjack flag set, is not
  bust and is standing, and against a dealer without blackjack \<open>apply_payouts\<close> pays
  it by the blackjack rule, \<open>int(bet * 2.5)\<close> in float arithmetic, which is
  \<open>floor (bet * 2.5)\<close> for a bet from 0 and below \<open>2^53 / 5\<close>, although the 21 was not
  on the original two cards.
\<close>

theorem C10_split_blackjack:
  assumes "current s = Some (name, hl, h)" and "bankrolls s name = Some bk"
    and "playable h" and "length (cards h) = 2"
    and "fst (cards h ! 0) = fst (cards h ! 1)" and "bet h \<le> bk" and "length hl < 4"
    and "is_shuffle sh" and "deck s = Some d" and "0 < num_decks d"
  shows "\<exists>s' hl'.
           action_split sh s = Inr s' \<and> map_of (player_hands s') name = Some hl'
           \<and> (\<forall>j \<in> {nat (current_hand_idx s), Suc (nat (current_hand_idx s))}.
                 length (cards (hl' ! j)) = 2 \<and> bet (hl' ! j) = bet h
                 \<and> (get_value (hl' ! j) = 21 \<longrightarrow>
                      is_blackjack (hl' ! j) \<and> \<not> is_bust (hl' ! j) \<and> is_standing (hl' ! j)
                      \<and> (\<forall>dealer_value dealer_bust.
                            payout (hl' ! j) dealer_value dealer_bust False =
                              int_bet_times_2_5 (bet (hl' ! j))
                            \<and> (0 \<le> bet h \<and> 5 * bet h < 2 ^ 53 \<longrightarrow>
                                 payout (hl' ! j) dealer_value dealer_bust False =
                                   Inr \<lfloor>real_of_int (bet (hl' ! j)) * 2.5\<rfloor>))))"
proof -
  let ?i = "nat (current_hand_idx s)"
  from action_split_hands [OF assms(1-10)]
  obtain c1 c2 s' where run: "action_split sh s = Inr s'"
    and ph: "player_hands s' =
               AList.update name
                 (take ?i hl @ [hand_split_keep h c1, hand_split_new h c2] @ drop (Suc ?i) hl)
                 (player_hands s)"
    by blast
  let ?kept = "hand_split_keep h c1" and ?new = "hand_split_new h c2"
  let ?hl' = "take ?i hl @ [?kept, ?new] @ drop (Suc ?i) hl"
  have mine: "map_of (player_hands s') name = Some ?hl'"
    by (simp add: ph update_conv')
  have li: "length (take ?i hl) = ?i" using currentD(2) [OF assms(1)] by simp
  have at_i: "?hl' ! ?i = ?kept" using li by (simp add: nth_append)
  have at_Si: "?hl' ! Suc ?i = ?new" using li by (simp add: nth_append)
  have paid: "length (cards x') = 2 \<and> bet x' = bet h
      \<and> (get_value x' = 21 \<longrightarrow>
            is_blackjack x' \<and> \<not> is_bust x' \<and> is_standing x'
            \<and> (\<forall>dealer_value dealer_bust.
                  payout x' dealer_value dealer_bust False = int_bet_times_2_5 (bet x')
                  \<and> (0 \<le> bet h \<and> 5 * bet h < 2 ^ 53 \<longrightarrow>
                       payout x' dealer_value dealer_bust False =
                         Inr \<lfloor>real_of_int (bet x') * 2.5\<rfloor>)))"
    if x': "x' = add_card x c" and one: "length (cards x) = 1" and bx: "bet x = bet h"
    for x' x c
  proof -
    have len: "length (cards x') = 2" using one by (simp add: x')
    have b: "bet x' = bet h" using bx by (simp add: x')
    have rest: "is_blackjack x' \<and> \<not> is_bust x' \<and> is_standing x'
            \<and> (\<forall>dealer_value dealer_bust.
                  payout x' dealer_value dealer_bust False = int_bet_times_2_5 (bet x')
                  \<and> (0 \<le> bet h \<and> 5 * bet h < 2 ^ 53 \<longrightarrow>
                       payout x' dealer_value dealer_bust False =
                         Inr \<lfloor>real_of_int (bet x') * 2.5\<rfloor>))"
      if v: "get_value x' = 21"
    proof -
      from v have v': "get_value (add_card x c) = 21" by (simp add: x')
      note s21 = split_hand_21 [OF one v']
      have fl: "int_bet_times_2_5 (bet h) = Inr \<lfloor>real_of_int (bet h) * 2.5\<rfloor>"
        if "0 \<le> bet h \<and> 5 * bet h < 2 ^ 53"
        using that by (intro int_bet_times_2_5_floor) simp_all
      from s21 fl show ?thesis by (simp add: x' bx)
    qed
    from len b rest show ?thesis by blast
  qed
  have kept: "length (cards (?hl' ! ?i)) = 2 \<and> bet (?hl' ! ?i) = bet h
      \<and> (get_value (?hl' ! ?i) = 21 \<longrightarrow>
            is_blackjack (?hl' ! ?i) \<and> \<not> is_bust (?hl' ! ?i) \<and> is_standing (?hl' ! ?i)
            \<and> (\<forall>dealer_value dealer_bust.
                  payout (?hl' ! ?i) dealer_value dealer_bust False =
                    int_bet_times_2_5 (bet (?hl' ! ?i))
                  \<and> (0 \<le> bet h \<and> 5 * bet h < 2 ^ 53 \<longrightarrow>
                       payout (?hl' ! ?i) dealer_value dealer_bust False =
                         Inr \<lfloor>real_of_int (bet (?hl' ! ?i)) * 2.5\<rfloor>)))"
    unfolding at_i
    by (rule paid [of _ "h\<lparr>cards := butlast (cards h)\<rparr>" c1])
       (simp_all add: hand_split_keep_def assms(4))
  have new: "length (cards (?hl' ! Suc ?i)) = 2 \<and> bet (?hl' ! Suc ?i) = bet h
      \<and> (get_value (?hl' ! Suc ?i) = 21 \<longrightarrow>
            is_blackjack (?hl' ! Suc ?i) \<and> \<not> is_bust (?hl' ! Suc ?i)
            \<and> is_standing (?hl' ! Suc ?i)
            \<and> (\<forall>dealer_value dealer_bust.
                  payout (?hl' ! Suc ?i) dealer_value dealer_bust False =
                    int_bet_times_2_5 (bet (?hl' ! Suc ?i))
                  \<and> (0 \<le> bet h \<and> 5 * bet h < 2 ^ 53 \<longrightarrow>
                       payout (?hl' ! Suc ?i) dealer_value dealer_bust False =
                         Inr \<lfloor>real_of_int (bet (?hl' ! Suc ?i)) * 2.5\<rfloor>)))"
    unfolding at_Si
    by (rule paid [of _ "Hand\<lparr>bet := bet h, cards := cards Hand @ [last (cards h)]\<rparr>" c2])
       (simp_all add: hand_split_new_def Hand_def)
  from kept new have both: "\<forall>j \<in> {?i, Suc ?i}.
                 length (cards (?hl' ! j)) = 2 \<and> bet (?hl' ! j) = bet h
                 \<and> (get_value (?hl' ! j) = 21 \<longrightarrow>
                      is_blackjack (?hl' ! j) \<and> \<not> is_bust (?hl' ! j) \<and> is_standing (?hl' ! j)
                      \<and> (\<forall>dealer_value dealer_bust.
                            payout (?hl' ! j) dealer_value dealer_bust False =
                              int_bet_times_2_5 (bet (?hl' ! j))
                            \<and> (0 \<le> bet h \<and> 5 * bet h < 2 ^ 53 \<longrightarrow>
                                 payout (?hl' ! j) dealer_value dealer_bust False =
                                   Inr \<lfloor>real_of_int (bet (?hl' ! j)) * 2.5\<rfloor>)))"
    by blast
  from run mine both show ?thesis by (intro exI [of _ s'] exI [of _ ?hl'] conjI)
qed


theorem C10_split_blackjack_witness:
  "current ex_aces_dealt = Some (''Player 1'', [ex_hand_aces], ex_hand_aces)
   \<and> bankrolls ex_aces_dealt ''Player 1'' = Some 900
   \<and> playable ex_hand_aces \<and> length (cards ex_hand_aces) = 2
   \<and> fst (cards ex_hand_aces ! 0) = fst (cards ex_hand_aces ! 1)
   \<and> bet ex_hand_aces \<le> 900 \<and> length [ex_hand_aces] < 4 \<and> is_shuffle ex_shuffle
   \<and> 0 \<le> bet ex_hand_aces \<and> 5 * bet ex_hand_aces < 2 ^ 53
   \<and> action_split ex_shuffle ex_aces_dealt = Inr ex_aces_split
   \<and> map_of (player_hands ex_aces_split) ''Player 1'' = Some [ex_hand_ace_king, ex_hand_ace_five]
   \<and> cards ex_hand_ace_king = [(Ace, Spades), (King, Diamonds)]
   \<and> get_value ex_hand_ace_king = 21 \<and> is_blackjack ex_hand_ace_king
   \<and> bet ex_hand_ace_king = 100
   \<and> payout ex_hand_ace_king 19 False False = Inr 250
   \<and> reveal_button ex_shuffle ex_aces_stood = Inr ex_aces_settled
   \<and> bankrolls ex_aces_stood ''Player 1'' = Some 800
   \<and> bankrolls ex_aces_settled ''Player 1'' = Some 1050"
proof -
  have h1: "current ex_aces_dealt = Some (''Player 1'', [ex_hand_aces], ex_hand_aces)"
    by (simp add: current_def ex_defs ex_aces_defs)
  have h2: "bankrolls ex_aces_dealt ''Player 1'' = Some 900" by (simp add: ex_aces_defs)
  have h3: "playable ex_hand_aces" by (simp add: playable_def ex_aces_defs)
  have h4: "length (cards ex_hand_aces) = 2" by (simp add: ex_aces_defs)
  have h5: "fst (cards ex_hand_aces ! 0) = fst (cards ex_hand_aces ! 1)"
    by (simp add: ex_aces_defs)
  have h6: "bet ex_hand_aces \<le> 900" by (simp add: ex_aces_defs)
  have h7: "length [ex_hand_aces] < 4" by simp
  have h8: "is_shuffle ex_shuffle" by (simp add: is_shuffle_def ex_shuffle_def)
  have h9: "deck ex_aces_dealt =
      Some \<lparr>num_decks = 6,
            deck_cards = ex_filler @ ex_extra @ [(R5, Diamonds), (King, Diamonds)]\<rparr>"
    by (simp add: ex_aces_dealt_def)
  have h10: "0 < num_decks \<lparr>num_decks = 6,
      deck_cards = ex_filler @ ex_extra @ [(R5, Diamonds), (King, Diamonds)]\<rparr>"
    by simp
  have nn: "0 \<le> bet ex_hand_aces" and bd: "5 * bet ex_hand_aces < 2 ^ 53"
    by (simp_all add: ex_aces_defs)
  have m: "map_of (player_hands ex_aces_split) ''Player 1'' =
      Some [ex_hand_ace_king, ex_hand_ace_five]"
    by (simp add: ex_aces_split_def)
  have i: "nat (current_hand_idx ex_aces_dealt) = 0" by (simp add: ex_defs ex_aces_defs)
  have v: "get_value ex_hand_ace_king = 21" by (simp add: ex_aces_defs get_value_def)
  have c: "cards ex_hand_ace_king = [(Ace, Spades), (King, Diamonds)]"
    and b: "bet ex_hand_ace_king = 100"
    by (simp_all add: ex_aces_defs)
  have "\<exists>s' hl'. action_split ex_shuffle ex_aces_dealt = Inr s'
      \<and> map_of (player_hands s') ''Player 1'' = Some hl'
      \<and> (get_value (hl' ! 0) = 21 \<longrightarrow>
            is_blackjack (hl' ! 0)
            \<and> payout (hl' ! 0) 19 False False = Inr \<lfloor>real_of_int (bet (hl' ! 0)) * 2.5\<rfloor>)"
    using C10_split_blackjack [OF h1 h2 h3 h4 h5 h6 h7 h8 h9 h10, unfolded i] nn bd
    by blast
  then obtain s' hl' where run: "action_split ex_shuffle ex_aces_dealt = Inr s'"
    and mine: "map_of (player_hands s') ''Player 1'' = Some hl'"
    and at0: "get_value (hl' ! 0) = 21 \<longrightarrow>
        is_blackjack (hl' ! 0)
        \<and> payout (hl' ! 0) 19 False False = Inr \<lfloor>real_of_int (bet (hl' ! 0)) * 2.5\<rfloor>"
    by blast
  from run ex_aces_action_split have "s' = ex_aces_split" by simp
  with mine m have "hl' = [ex_hand_ace_king, ex_hand_ace_five]" by simp
  with at0 v have bj: "is_blackjack ex_hand_ace_king"
    and pay: "payout ex_hand_ace_king 19 False False =
        Inr \<lfloor>real_of_int (bet ex_hand_ace_king) * 2.5\<rfloor>"
    by simp_all
  have fl: "\<lfloor>real_of_int (bet ex_hand_ace_king) * 2.5\<rfloor> = 250" by (simp add: b)
  have b1: "bankrolls ex_aces_stood ''Player 1'' = Some 800"
    and b2: "bankrolls ex_aces_settled ''Player 1'' = Some 1050"
    by (simp_all add: ex_aces_defs)
  from h1 h2 h3 h4 h5 h6 h7 h8 nn bd ex_aces_action_split m c v bj b pay [unfolded fl]
    ex_aces_reveal_button b1 b2
  show ?thesis by (intro conjI)
qed

section \<open>The initial deal\<close>

lemma update_new: "n \<notin> fst ` set al \<Longrightarrow> AList.update n v al = al @ [(n, v)]"
  by (induction al) auto

lemma update_mid:
  "n \<notin> fst ` set pre \<Longrightarrow> AList.update n v (pre @ (n, w) # post) = pre @ (n, v) # post"
  by (induction pre) auto

lemma map_of_mid: "n \<notin> fst ` set pre \<Longrightarrow> map_of (pre @ (n, w) # post) n = Some w"
  by (induction pre) auto

lemma keys_single_hands [simp]: "map fst (single_hands xs) = map fst xs"
  by (simp add: single_hands_def case_prod_unfold)

lemma single_hands_simps [simp]:
  "single_hands [] = []"
  "single_hands ((n, h) # xs) = (n, [h]) # single_hands xs"
  "single_hands (xs @ ys) = single_hands xs @ single_hands ys"
  by (simp_all add: single_hands_def)

lemma keys_new_hands [simp]: "map fst (new_hands bets) = map fst (participants bets)"
  by (simp add: new_hands_def case_prod_unfold)

lemma place_bets_result:
  assumes "distinct (map fst bets)"
    and "set (map fst bets) \<inter> fst ` set (player_hands s) = {}"
    and "\<forall>(n, b) \<in> set bets. 0 < b \<longrightarrow> bankrolls s n \<noteq> None"
  shows "\<exists>bks. place_bets bets s =
           Inr (s\<lparr>player_hands := player_hands s @ single_hands (new_hands bets),
                  bankrolls := bks\<rparr>)"
  using assms
proof (induction bets arbitrary: s)
  case Nil
  have "s = s\<lparr>player_hands := player_hands s, bankrolls := bankrolls s\<rparr>" by simp
  then show ?case by (auto simp: new_hands_def participants_def intro: exI [of _ "bankrolls s"])
next
  case (Cons p bets)
  obtain name b where p: "p = (name, b)" by (cases p)
  show ?case
  proof (cases "0 < b")
    case True
    with Cons.prems(3) p obtain bk where bk: "bankrolls s name = Some bk" by auto
    let ?s1 = "s\<lparr>player_hands := AList.update name [Hand\<lparr>bet := b\<rparr>] (player_hands s),
                  bankrolls := (bankrolls s)(name \<mapsto> bk - b)\<rparr>"
    from Cons.prems(2) p have fresh: "name \<notin> fst ` set (player_hands s)" by auto
    then have ph1: "player_hands ?s1 = player_hands s @ [(name, [Hand\<lparr>bet := b\<rparr>])]"
      by (simp add: update_new)
    have d: "distinct (map fst bets)" using Cons.prems(1) by simp
    have disj: "set (map fst bets) \<inter> fst ` set (player_hands ?s1) = {}"
      using Cons.prems(1,2) p by (auto simp: ph1)
    have dom: "\<forall>(n, b) \<in> set bets. 0 < b \<longrightarrow> bankrolls ?s1 n \<noteq> None"
      using Cons.prems(3) by auto
    from Cons.IH [OF d disj dom] obtain bks where
      run: "place_bets bets ?s1 =
              Inr (?s1\<lparr>player_hands := player_hands ?s1 @ single_hands (new_hands bets),
                       bankrolls := bks\<rparr>)"
      by blast
    have nh: "new_hands (p # bets) = (name, Hand\<lparr>bet := b\<rparr>) # new_hands bets"
      using True p by (simp add: new_hands_def participants_def)
    have "place_bets (p # bets) s = place_bets bets ?s1"
      using True p bk by simp
    also note run
    finally show ?thesis by (intro exI [of _ bks]) (simp add: nh ph1)
  next
    case False
    have d: "distinct (map fst bets)" using Cons.prems(1) by simp
    have disj: "set (map fst bets) \<inter> fst ` set (player_hands s) = {}"
      using Cons.prems(2) by auto
    have dom: "\<forall>(n, b) \<in> set bets. 0 < b \<longrightarrow> bankrolls s n \<noteq> None"
      using Cons.prems(3) by auto
    have nh: "new_hands ((name, b) # bets) = new_hands bets"
      using False by (simp add: new_hands_def participants_def)
    have "place_bets ((name, b) # bets) s = place_bets bets s"
      using False by simp
    with Cons.IH [OF d disj dom] show ?thesis by (simp only: p nh)
  qed
qed


lemma rev_last_butlast: "cs \<noteq> [] \<Longrightarrow> rev cs = last cs # rev (butlast cs)"
  by (cases cs rule: rev_cases) auto

lemma give_cards_Cons [simp]:
  "give_cards (c # cs) ((n, h) # xs) = (n, add_card h c) # give_cards cs xs"
  by (simp add: give_cards_def)

lemma give_cards_Nil [simp]: "give_cards cs [] = []"
  by (simp add: give_cards_def)

lemma keys_give_cards: "length xs \<le> length cs \<Longrightarrow> map fst (give_cards cs xs) = map fst xs"
proof (induction xs arbitrary: cs)
  case Nil
  show ?case by simp
next
  case (Cons x xs)
  obtain n h where x: "x = (n, h)" by (cases x)
  from Cons.prems obtain c cs' where cs: "cs = c # cs'" by (cases cs) auto
  with Cons show ?case by (simp add: x)
qed

lemma deal_players_result:
  assumes "player_hands s = pre @ single_hands post"
    and "distinct (map fst (player_hands s))"
    and "deck s = Some d"
    and "length post + 14 \<le> length (deck_cards d)"
  shows "deal_players sh (map fst post) s =
     Inr (s\<lparr>player_hands :=
              pre @ single_hands (give_cards (take (length post) (rev (deck_cards d))) post),
            deck := Some (d\<lparr>deck_cards :=
              take (length (deck_cards d) - length post) (deck_cards d)\<rparr>)\<rparr>)"
  using assms
proof (induction post arbitrary: s pre d)
  case Nil
  have "s\<lparr>player_hands := pre, deck := Some d\<rparr> = s"
    using Nil.prems(1,3) by simp
  then show ?case by simp
next
  case (Cons x post)
  obtain n h where x: "x = (n, h)" by (cases x)
  let ?cs = "deck_cards d"
  from Cons.prems(4) have big: "15 \<le> length ?cs" by simp
  then have ne: "?cs \<noteq> []" by auto
  let ?c = "last ?cs"
  let ?d1 = "d\<lparr>deck_cards := butlast ?cs\<rparr>"
  have fresh: "n \<notin> fst ` set pre"
    using Cons.prems(1,2) by (auto simp: x)
  have ph: "player_hands s = pre @ (n, [h]) # single_hands post"
    using Cons.prems(1) by (simp add: x)
  have look: "map_of (player_hands s) n = Some [h]"
    by (simp only: ph map_of_mid [OF fresh])
  have dr: "draw sh s = Inr (?c, s\<lparr>deck := Some ?d1\<rparr>)"
    using Cons.prems(3) big by (rule draw_no_reshuffle)
  let ?s2 = "s\<lparr>deck := Some ?d1,
               player_hands := pre @ (n, [add_card h ?c]) # single_hands post\<rparr>"
  have upd: "AList.update n [add_card h ?c] (player_hands s) =
      pre @ (n, [add_card h ?c]) # single_hands post"
    by (simp only: ph update_mid [OF fresh])
  have step: "deal_players sh (map fst (x # post)) s = deal_players sh (map fst post) ?s2"
    using look dr by (simp add: x upd)
  have ph2: "player_hands ?s2 = (pre @ [(n, [add_card h ?c])]) @ single_hands post"
    by simp
  have dist2: "distinct (map fst (player_hands ?s2))"
    using Cons.prems(1,2) by (simp add: x)
  have dk2: "deck ?s2 = Some ?d1" by simp
  have len2: "length post + 14 \<le> length (deck_cards ?d1)"
    using Cons.prems(4) by simp
  note ih = Cons.IH [OF ph2 dist2 dk2 len2]
  have top: "take (length (x # post)) (rev ?cs) =
      ?c # take (length post) (rev (butlast ?cs))"
    by (simp add: rev_last_butlast [OF ne])
  have shoe: "take (length ?cs - Suc (length post)) (butlast ?cs) =
      take (length ?cs - Suc (length post)) ?cs"
    by (simp add: butlast_conv_take min_def)
  show ?case
    unfolding step ih top by (simp add: x shoe)
qed


lemma take_take_le: "a \<le> b \<Longrightarrow> take a (take b xs) = take a xs"
  by (simp add: min_def)

lemma length_give_cards: "length xs \<le> length cs \<Longrightarrow> length (give_cards cs xs) = length xs"
  by (simp add: give_cards_def)

lemma nth_give_cards:
  "i < length xs \<Longrightarrow> length xs \<le> length cs \<Longrightarrow>
   give_cards cs xs ! i = (fst (xs ! i), add_card (snd (xs ! i)) (cs ! i))"
  by (simp add: give_cards_def case_prod_unfold)

lemma deal_round_result:
  assumes "player_hands s = single_hands xs"
    and "distinct (map fst xs)"
    and "dealer_hand s = Some dh"
    and "deck s = Some d"
    and "length xs + 15 \<le> length (deck_cards d)"
  shows "deal_round sh s =
     Inr (s\<lparr>player_hands :=
              single_hands (give_cards (take (length xs) (rev (deck_cards d))) xs),
            deck := Some (d\<lparr>deck_cards :=
              take (length (deck_cards d) - Suc (length xs)) (deck_cards d)\<rparr>),
            dealer_hand := Some (add_card dh (rev (deck_cards d) ! length xs))\<rparr>)"
proof -
  let ?cs = "deck_cards d" and ?N = "length xs"
  let ?d1 = "d\<lparr>deck_cards := take (length ?cs - ?N) ?cs\<rparr>"
  let ?s1 = "s\<lparr>player_hands := single_hands (give_cards (take ?N (rev ?cs)) xs),
               deck := Some ?d1\<rparr>"
  have ph: "player_hands s = [] @ single_hands xs" using assms(1) by simp
  have dist: "distinct (map fst (player_hands s))" using assms(1,2) by simp
  have len: "?N + 14 \<le> length ?cs" using assms(5) by simp
  have players: "deal_players sh (map fst xs) s = Inr ?s1"
    using deal_players_result [OF ph dist assms(4) len, of sh] by simp
  have keys: "map fst (player_hands s) = map fst xs" using assms(1) by simp
  have dk1: "deck ?s1 = Some ?d1" by simp
  have big: "15 \<le> length (deck_cards ?d1)" using assms(5) by simp
  have dr: "draw sh ?s1 =
      Inr (last (deck_cards ?d1), ?s1\<lparr>deck := Some (?d1\<lparr>deck_cards := butlast (deck_cards ?d1)\<rparr>)\<rparr>)"
    using dk1 big by (rule draw_no_reshuffle)
  have pos: "0 < length ?cs - ?N" and le: "length ?cs - ?N \<le> length ?cs"
    using assms(5) by simp_all
  have lst: "last (deck_cards ?d1) = rev ?cs ! ?N"
  proof -
    have "last (take (length ?cs - ?N) ?cs) = take (length ?cs - ?N) ?cs ! (length ?cs - ?N - 1)"
      using pos le by (subst last_conv_nth) auto
    also have "\<dots> = ?cs ! (length ?cs - Suc ?N)" using pos by simp
    also have "\<dots> = rev ?cs ! ?N" using assms(5) by (simp add: rev_nth)
    finally show ?thesis by simp
  qed
  have bl: "butlast (deck_cards ?d1) = take (length ?cs - Suc ?N) ?cs"
    using le by (simp add: butlast_take)
  have "deal_round sh s =
      Inr (?s1\<lparr>deck := Some (?d1\<lparr>deck_cards := butlast (deck_cards ?d1)\<rparr>),
               dealer_hand := Some (add_card dh (last (deck_cards ?d1)))\<rparr>)"
    unfolding deal_round_def keys players using assms(3) dr by simp
  then show ?thesis unfolding lst bl by simp
qed

lemma distinct_participants:
  "distinct (map fst bets) \<Longrightarrow> distinct (map fst (participants bets))"
  unfolding participants_def by (rule distinct_map_filter)

lemma length_new_hands [simp]: "length (new_hands bets) = length (participants bets)"
  by (simp add: new_hands_def)

lemma deal_cards_result:
  assumes "\<exists>b \<in> set (map snd bets). MIN_BET \<le> b"
    and "distinct (map fst bets)"
    and "\<forall>(n, b) \<in> set bets. 0 < b \<longrightarrow> bankrolls s n \<noteq> None"
    and "deck s = Some d"
    and "2 * length (participants bets) + 16 \<le> length (deck_cards d)"
  shows "\<exists>bks. deal_cards sh bets s =
     Inr (s\<lparr>dealer_hand :=
              Some (add_card (add_card Hand (rev (deck_cards d) ! length (participants bets)))
                      (rev (deck_cards d) ! (2 * length (participants bets) + 1))),
            player_hands :=
              single_hands
                (give_cards
                   (take (length (participants bets))
                      (drop (Suc (length (participants bets))) (rev (deck_cards d))))
                   (give_cards (take (length (participants bets)) (rev (deck_cards d)))
                      (new_hands bets))),
            deck := Some (d\<lparr>deck_cards :=
              take (length (deck_cards d) - (2 * length (participants bets) + 2))
                (deck_cards d)\<rparr>),
            bankrolls := bks,
            betting_phase := False, round_active := True, dealer_turn := False,
            round_over := False, payouts_applied := False,
            current_player_idx := 0, current_hand_idx := 0\<rparr>)"
proof -
  let ?cs = "deck_cards d" and ?N = "length (participants bets)"
  let ?top = "rev ?cs"
  let ?s0 = "s\<lparr>dealer_hand := Some Hand, player_hands := [], deck := Some d, rng := rng s\<rparr>"
  have "\<exists>bks. place_bets bets ?s0 =
      Inr (?s0\<lparr>player_hands := player_hands ?s0 @ single_hands (new_hands bets),
               bankrolls := bks\<rparr>)"
    using assms(2,3) by (intro place_bets_result) simp_all
  then obtain bks where
    pb: "place_bets bets ?s0 =
           Inr (?s0\<lparr>player_hands := single_hands (new_hands bets), bankrolls := bks\<rparr>)"
    by auto
  let ?s1 = "?s0\<lparr>player_hands := single_hands (new_hands bets), bankrolls := bks\<rparr>"
  let ?xs1 = "new_hands bets"
  have dist1: "distinct (map fst ?xs1)"
    using assms(2) by (simp add: distinct_participants)
  have len1: "length ?xs1 + 15 \<le> length ?cs" using assms(5) by simp
  let ?d2 = "d\<lparr>deck_cards := take (length ?cs - Suc ?N) ?cs\<rparr>"
  let ?xs2 = "give_cards (take ?N ?top) ?xs1"
  let ?s2 = "?s1\<lparr>player_hands := single_hands ?xs2, deck := Some ?d2,
                  dealer_hand := Some (add_card Hand (?top ! ?N))\<rparr>"
  have r1: "deal_round sh ?s1 = Inr ?s2"
    using deal_round_result [of ?s1 ?xs1 Hand d sh] dist1 len1 by simp
  have lxs2: "length ?xs2 = ?N" using assms(5) by (simp add: length_give_cards)
  have dist2: "distinct (map fst ?xs2)"
    using dist1 assms(5) by (simp add: keys_give_cards)
  have len2: "length ?xs2 + 15 \<le> length (deck_cards ?d2)"
    using assms(5) by (simp add: lxs2)
  have top2: "rev (deck_cards ?d2) = drop (Suc ?N) ?top"
    using assms(5) by (simp add: rev_take)
  have idx: "Suc ?N + ?N = 2 * ?N + 1" by simp
  have nth2: "drop (Suc ?N) ?top ! ?N = ?top ! (2 * ?N + 1)"
  proof -
    have le: "Suc ?N \<le> length ?top" using assms(5) by simp
    have "drop (Suc ?N) ?top ! ?N = ?top ! (Suc ?N + ?N)" using le by (rule nth_drop)
    then show ?thesis by (simp only: idx)
  qed
  have shoe2: "take (length (deck_cards ?d2) - Suc ?N) (deck_cards ?d2) =
      take (length ?cs - (2 * ?N + 2)) ?cs"
  proof -
    have dc: "deck_cards ?d2 = take (length ?cs - Suc ?N) ?cs" by simp
    have ln: "length (take (length ?cs - Suc ?N) ?cs) = length ?cs - Suc ?N" by simp
    have e: "length ?cs - Suc ?N - Suc ?N = length ?cs - (2 * ?N + 2)" by arith
    show ?thesis unfolding dc ln e by (rule take_take_le) arith
  qed
  let ?s3 = "?s2\<lparr>player_hands :=
                   single_hands (give_cards (take ?N (drop (Suc ?N) ?top)) ?xs2),
                 deck := Some (d\<lparr>deck_cards := take (length ?cs - (2 * ?N + 2)) ?cs\<rparr>),
                 dealer_hand :=
                   Some (add_card (add_card Hand (?top ! ?N)) (?top ! (2 * ?N + 1)))\<rparr>"
  have raw: "deal_round sh ?s2 =
     Inr (?s2\<lparr>player_hands :=
              single_hands (give_cards (take (length ?xs2) (rev (deck_cards ?d2))) ?xs2),
            deck := Some (?d2\<lparr>deck_cards :=
              take (length (deck_cards ?d2) - Suc (length ?xs2)) (deck_cards ?d2)\<rparr>),
            dealer_hand :=
              Some (add_card (add_card Hand (?top ! ?N))
                      (rev (deck_cards ?d2) ! length ?xs2))\<rparr>)"
    using dist2 len2 by (intro deal_round_result) simp_all
  have r2: "deal_round sh ?s2 = Inr ?s3"
    using raw unfolding lxs2 top2 nth2 shoe2 by simp
  from assms(1) have m: "\<not> \<not> (\<exists>b \<in> set (map snd bets). MIN_BET \<le> b)" by simp
  have "deal_cards sh bets s =
      Inr (?s3\<lparr>betting_phase := False, round_active := True, dealer_turn := False,
               round_over := False, payouts_applied := False,
               current_player_idx := 0, current_hand_idx := 0\<rparr>)"
    unfolding deal_cards_def using m assms(4) pb r1 r2
    by (simp only: if_False option.case prod.case sum.case)
  then show ?thesis by (intro exI [of _ bks]) simp
qed


lemma nth_single_hands:
  "i < length ys \<Longrightarrow> single_hands ys ! i = (fst (ys ! i), [snd (ys ! i)])"
  by (simp add: single_hands_def case_prod_unfold)

lemma nth_new_hands:
  "i < length (participants bets) \<Longrightarrow>
   new_hands bets ! i = (fst (participants bets ! i), Hand\<lparr>bet := snd (participants bets ! i)\<rparr>)"
  by (simp add: new_hands_def case_prod_unfold)

text \<open>
  C9. Let N players have a bet above 0, some bet reach the minimum, the names be
  distinct as in a dict, every betting player have a bankroll, and the shoe hold at
  least 2N + 16 cards, so that it holds 15 or more before each of the 2N + 2 draws. Then
  the Deal Cards handler returns, the shoe has lost exactly its last 2N + 2 cards and
  the generator is untouched. Counting the draws from 0, player i holds one hand with
  the bet and the cards of draws i and N + 1 + i, and the dealer holds the cards of
  draws N and 2N + 1: one card to each player, one to the dealer, and the same again.
\<close>

theorem C9_initial_deal:
  assumes "\<exists>b \<in> set (map snd bets). MIN_BET \<le> b"
    and "distinct (map fst bets)"
    and "\<forall>(n, b) \<in> set bets. 0 < b \<longrightarrow> bankrolls s n \<noteq> None"
    and "deck s = Some d"
    and "2 * length (participants bets) + 16 \<le> length (deck_cards d)"
  shows "\<exists>s' d' dh.
           deal_cards sh bets s = Inr s'
           \<and> deck s' = Some d' \<and> rng s' = rng s
           \<and> deck_cards d' =
               take (length (deck_cards d) - (2 * length (participants bets) + 2)) (deck_cards d)
           \<and> length (deck_cards d') + (2 * length (participants bets) + 2) =
               length (deck_cards d)
           \<and> map fst (player_hands s') = map fst (participants bets)
           \<and> (\<forall>i < length (participants bets).
                 \<exists>h. player_hands s' ! i = (fst (participants bets ! i), [h])
                     \<and> bet h = snd (participants bets ! i)
                     \<and> cards h = [rev (deck_cards d) ! i,
                                  rev (deck_cards d) ! (length (participants bets) + 1 + i)])
           \<and> dealer_hand s' = Some dh
           \<and> cards dh = [rev (deck_cards d) ! length (participants bets),
                         rev (deck_cards d) ! (2 * length (participants bets) + 1)]"
proof -
  let ?cs = "deck_cards d" and ?N = "length (participants bets)"
  let ?top = "rev ?cs"
  let ?cs1 = "take ?N ?top" and ?cs2 = "take ?N (drop (Suc ?N) ?top)"
  let ?xs = "new_hands bets"
  let ?ys = "give_cards ?cs2 (give_cards ?cs1 ?xs)"
  let ?d' = "d\<lparr>deck_cards := take (length ?cs - (2 * ?N + 2)) ?cs\<rparr>"
  let ?dh = "add_card (add_card Hand (?top ! ?N)) (?top ! (2 * ?N + 1))"
  from deal_cards_result [OF assms, of sh] obtain bks s'
    where run: "deal_cards sh bets s = Inr s'"
      and s': "s' = s\<lparr>dealer_hand := Some ?dh, player_hands := single_hands ?ys,
                      deck := Some ?d', bankrolls := bks,
                      betting_phase := False, round_active := True, dealer_turn := False,
                      round_over := False, payouts_applied := False,
                      current_player_idx := 0, current_hand_idx := 0\<rparr>"
    by blast
  have l1: "length ?cs1 = ?N" and l2: "length ?cs2 = ?N" using assms(5) by simp_all
  have lx: "length (give_cards ?cs1 ?xs) = ?N"
    using assms(5) by (simp add: give_cards_def)
  have ly: "length ?ys = ?N"
    using assms(5) by (simp add: give_cards_def)
  have dk: "deck s' = Some ?d'" and rg: "rng s' = rng s" and dlr: "dealer_hand s' = Some ?dh"
    and ph: "player_hands s' = single_hands ?ys"
    by (simp_all add: s')
  have shoe: "deck_cards ?d' = take (length ?cs - (2 * ?N + 2)) ?cs" by simp
  have size: "length (deck_cards ?d') + (2 * ?N + 2) = length ?cs"
    using assms(5) by simp
  have p1: "length ?xs \<le> length ?cs1" unfolding l1 by simp
  have p2: "length (give_cards ?cs1 ?xs) \<le> length ?cs2" unfolding l2 lx by simp
  have k1: "map fst (give_cards ?cs1 ?xs) = map fst ?xs" using p1 by (rule keys_give_cards)
  have k2: "map fst ?ys = map fst (give_cards ?cs1 ?xs)" using p2 by (rule keys_give_cards)
  have keys: "map fst (player_hands s') = map fst (participants bets)"
    by (simp only: ph keys_single_hands k2 k1 keys_new_hands)
  have each: "\<exists>h. player_hands s' ! i = (fst (participants bets ! i), [h])
                     \<and> bet h = snd (participants bets ! i)
                     \<and> cards h = [?top ! i, ?top ! (?N + 1 + i)]"
    if i: "i < ?N" for i
  proof -
    let ?b = "snd (participants bets ! i)"
    let ?h = "add_card (add_card (Hand\<lparr>bet := ?b\<rparr>) (?cs1 ! i)) (?cs2 ! i)"
    have ix: "i < length ?xs" using i by simp
    have iy: "i < length (give_cards ?cs1 ?xs)" using i by (simp only: lx)
    have x: "give_cards ?cs1 ?xs ! i =
        (fst (participants bets ! i), add_card (Hand\<lparr>bet := ?b\<rparr>) (?cs1 ! i))"
      by (simp only: nth_give_cards [OF ix p1] nth_new_hands [OF i] fst_conv snd_conv)
    have y: "?ys ! i = (fst (participants bets ! i), ?h)"
      by (simp only: nth_give_cards [OF iy p2] x fst_conv snd_conv)
    have iz: "i < length ?ys" using i by (simp only: ly)
    have at: "player_hands s' ! i = (fst (participants bets ! i), [?h])"
      by (simp only: ph nth_single_hands [OF iz] y fst_conv snd_conv)
    have c1: "?cs1 ! i = ?top ! i" using i by simp
    have le: "Suc ?N \<le> length ?top" using assms(5) by simp
    have "?cs2 ! i = drop (Suc ?N) ?top ! i" using i by simp
    also have "\<dots> = ?top ! (Suc ?N + i)" using le by (rule nth_drop)
    finally have c2: "?cs2 ! i = ?top ! (?N + 1 + i)" by simp
    have "bet ?h = ?b" by simp
    moreover have "cards ?h = [?top ! i, ?top ! (?N + 1 + i)]"
      by (simp add: c1 c2 Hand_def)
    ultimately show ?thesis using at by blast
  qed
  have dcards: "cards ?dh = [?top ! ?N, ?top ! (2 * ?N + 1)]" by (simp add: Hand_def)
  from run dk rg shoe size keys each dlr dcards show ?thesis
    by (intro exI [of _ s'] exI [of _ ?d'] exI [of _ ?dh]) blast
qed

theorem C9_initial_deal_witness:
  "ex_bets = [(''Player 1'', 100)] \<and> bankrolls ex_table ''Player 1'' = Some 1000
   \<and> length (participants ex_bets) = 1
   \<and> deck ex_table =
       Some \<lparr>num_decks = 6,
             deck_cards = ex_filler @ [(R9, Clubs), (R9, Diamonds), (R6, Hearts),
                                       (King, Spades), (R5, Spades)]\<rparr>
   \<and> deal_cards ex_shuffle ex_bets ex_table = Inr ex_dealt
   \<and> deck ex_dealt = Some \<lparr>num_decks = 6, deck_cards = ex_filler @ [(R9, Clubs)]\<rparr>
   \<and> player_hands ex_dealt = [(''Player 1'', [ex_hand_11])]
   \<and> cards ex_hand_11 = [(R5, Spades), (R6, Hearts)]
   \<and> dealer_hand ex_dealt = Some ex_dealer_19
   \<and> cards ex_dealer_19 = [(King, Spades), (R9, Diamonds)]
   \<and> (\<exists>s' d' dh.
         deal_cards ex_shuffle ex_bets ex_table = Inr s'
         \<and> deck s' = Some d' \<and> length (deck_cards d') + 4 = 20
         \<and> dealer_hand s' = Some dh
         \<and> cards dh = [(King, Spades), (R9, Diamonds)])"
proof -
  let ?d = "\<lparr>num_decks = 6,
             deck_cards = ex_filler @ [(R9, Clubs), (R9, Diamonds), (R6, Hearts),
                                       (King, Spades), (R5, Spades)]\<rparr>"
  have h1: "\<exists>b \<in> set (map snd ex_bets). MIN_BET \<le> b" by (simp add: ex_defs)
  have h2: "distinct (map fst ex_bets)" by (simp add: ex_defs)
  have h3: "\<forall>(n, b) \<in> set ex_bets. 0 < b \<longrightarrow> bankrolls ex_table n \<noteq> None"
    by (simp add: ex_defs)
  have h4: "deck ex_table = Some ?d" by (simp add: ex_table_def)
  have n: "length (participants ex_bets) = 1" by (simp add: participants_def ex_defs)
  have h5: "2 * length (participants ex_bets) + 16 \<le> length (deck_cards ?d)"
    by (simp add: n ex_filler_def)
  have top: "rev (deck_cards ?d) ! 1 = (King, Spades)" "rev (deck_cards ?d) ! 3 = (R9, Diamonds)"
    by (simp_all add: ex_filler_def)
  have len: "length (deck_cards ?d) = 20" by (simp add: ex_filler_def)
  have e1: "deck ex_dealt = Some \<lparr>num_decks = 6, deck_cards = ex_filler @ [(R9, Clubs)]\<rparr>"
    and e2: "player_hands ex_dealt = [(''Player 1'', [ex_hand_11])]"
    and e3: "cards ex_hand_11 = [(R5, Spades), (R6, Hearts)]"
    and e4: "dealer_hand ex_dealt = Some ex_dealer_19"
    and e5: "cards ex_dealer_19 = [(King, Spades), (R9, Diamonds)]"
    by (simp_all add: ex_dealt_def ex_hand_11_def ex_dealer_19_def)
  from C9_initial_deal [OF h1 h2 h3 h4 h5, of ex_shuffle]
  obtain s' d' dh where run: "deal_cards ex_shuffle ex_bets ex_table = Inr s'"
    and dk: "deck s' = Some d'"
    and size: "length (deck_cards d') + (2 * length (participants ex_bets) + 2) =
        length (deck_cards ?d)"
    and dlr: "dealer_hand s' = Some dh"
    and dc: "cards dh = [rev (deck_cards ?d) ! length (participants ex_bets),
                         rev (deck_cards ?d) ! (2 * length (participants ex_bets) + 1)]"
    by blast
  from size have size': "length (deck_cards d') + 4 = 20" by (simp only: n len)
  from dc have dc': "cards dh = [(King, Spades), (R9, Diamonds)]"
    by (simp only: n) (simp add: top)
  from run dk size' dlr dc'
  have ex: "\<exists>s' d' dh.
         deal_cards ex_shuffle ex_bets ex_table = Inr s'
         \<and> deck s' = Some d' \<and> length (deck_cards d') + 4 = 20
         \<and> dealer_hand s' = Some dh
         \<and> cards dh = [(King, Spades), (R9, Diamonds)]"
    by blast
  have b0: "ex_bets = [(''Player 1'', 100)]" by (simp add: ex_bets_def)
  have b1: "bankrolls ex_table ''Player 1'' = Some 1000" by (simp add: ex_defs)
  from b0 b1 n h4 ex_deal_cards e1 e2 e3 e4 e5 ex show ?thesis by (intro conjI)
qed

end
